theory Spec2Isabelle
  imports Main "HOL-Library.Word"
begin

unbundle bit_operations_syntax

section \<open>Go library functions called by msr.go\<close>

text \<open>
  Go strings are byte sequences: \<open>string\<close> (a \<open>char list\<close>, one \<open>char\<close> per byte).
  \<open>uint\<close>, \<open>uint64\<close>, \<open>int\<close> and \<open>int64\<close> are 64 bits wide (the plugin is built for
  64-bit Linux): unsigned values are \<open>64 word\<close>; an \<open>int\<close> is the HOL integer it denotes,
  and every conversion into \<open>int\<close> is written out (\<open>sint\<close>).
\<close>

type_synonym u64 = "64 word"

definition hasPrefix :: "string \<Rightarrow> string \<Rightarrow> bool" where
  "hasPrefix s p = (take (length p) s = p)"

text \<open>
  The UTF-8 encodings of the runes for which \<open>unicode.IsSpace\<close> holds (the table
  \<open>space\<close> of package fmt lists the same runes): U+0009..U+000D, U+0020, U+0085, U+00A0,
  U+1680, U+2000..U+200A, U+2028, U+2029, U+202F, U+205F, U+3000.
\<close>

definition spaceRunes :: "string list" where
  "spaceRunes =
    [[CHR 0x09], [CHR 0x0A], [CHR 0x0B], [CHR 0x0C], [CHR 0x0D], [CHR 0x20],
     [CHR 0xC2, CHR 0x85], [CHR 0xC2, CHR 0xA0],
     [CHR 0xE1, CHR 0x9A, CHR 0x80],
     [CHR 0xE2, CHR 0x80, CHR 0x80], [CHR 0xE2, CHR 0x80, CHR 0x81],
     [CHR 0xE2, CHR 0x80, CHR 0x82], [CHR 0xE2, CHR 0x80, CHR 0x83],
     [CHR 0xE2, CHR 0x80, CHR 0x84], [CHR 0xE2, CHR 0x80, CHR 0x85],
     [CHR 0xE2, CHR 0x80, CHR 0x86], [CHR 0xE2, CHR 0x80, CHR 0x87],
     [CHR 0xE2, CHR 0x80, CHR 0x88], [CHR 0xE2, CHR 0x80, CHR 0x89],
     [CHR 0xE2, CHR 0x80, CHR 0x8A],
     [CHR 0xE2, CHR 0x80, CHR 0xA8], [CHR 0xE2, CHR 0x80, CHR 0xA9],
     [CHR 0xE2, CHR 0x80, CHR 0xAF],
     [CHR 0xE2, CHR 0x81, CHR 0x9F],
     [CHR 0xE3, CHR 0x80, CHR 0x80]]"

text \<open>
  \<open>dropRunes rs s\<close> removes from the front of \<open>s\<close> every leading occurrence of one of
  the byte sequences \<open>rs\<close>.
\<close>

fun dropRunes :: "string list \<Rightarrow> string \<Rightarrow> string" where
  "dropRunes rs [] = []"
| "dropRunes rs (c # cs) =
     (case filter (hasPrefix (c # cs)) rs of
        [] \<Rightarrow> c # cs
      | r # _ \<Rightarrow> dropRunes rs (drop (length r - 1) cs))"

text \<open>
  \<open>strings.TrimSpace\<close>: the string without its leading and trailing white space, as
  defined by Unicode. A trailing rune is found by matching its encoding backwards.
\<close>

definition TrimSpace :: "string \<Rightarrow> string" where
  "TrimSpace s = rev (dropRunes (map rev spaceRunes) (rev (dropRunes spaceRunes s)))"

text \<open>\<open>strings.Split(s, ",")\<close> for the one-byte separator the source passes.\<close>

fun Split :: "string \<Rightarrow> char \<Rightarrow> string list" where
  "Split [] sep = [[]]"
| "Split (c # cs) sep =
     (if c = sep then [] # Split cs sep
      else (case Split cs sep of
              [] \<Rightarrow> [[c]]
            | t # ts \<Rightarrow> (c # t) # ts))"

definition isDigit :: "char \<Rightarrow> bool" where
  "isDigit c = (48 \<le> (of_char c :: nat) \<and> (of_char c :: nat) \<le> 57)"

definition digitVal :: "char \<Rightarrow> nat" where
  "digitVal c = of_char c - 48"

datatype numError = ErrSyntax | ErrRange

definition maxUint64 :: nat where
  "maxUint64 = 2 ^ 64 - 1"

text \<open>
  \<open>strconv.ParseUint(s, 10, 64)\<close>. The accumulator \<open>n\<close> is a \<open>uint64\<close>; the two overflow
  tests of the library (\<open>n >= cutoff\<close> before the multiplication, \<open>n1 < n || n1 > maxVal\<close>
  after the addition) are written on the unbounded value.
\<close>

fun parseUintLoop :: "nat \<Rightarrow> string \<Rightarrow> numError + nat" where
  "parseUintLoop n [] = Inr n"
| "parseUintLoop n (c # cs) =
     (if \<not> isDigit c then Inl ErrSyntax
      else if n \<ge> maxUint64 div 10 + 1 then Inl ErrRange
      else if n * 10 + digitVal c > maxUint64 then Inl ErrRange
      else parseUintLoop (n * 10 + digitVal c) cs)"

definition ParseUint :: "string \<Rightarrow> numError + nat" where
  "ParseUint s = (if s = [] then Inl ErrSyntax else parseUintLoop 0 s)"

text \<open>
  \<open>strconv.Atoi\<close>: an optional sign, then decimal digits, within the range of \<open>int\<close>.
\<close>

definition Atoi :: "string \<Rightarrow> numError + int" where
  "Atoi s =
    (case s of
       [] \<Rightarrow> Inl ErrSyntax
     | c # cs \<Rightarrow>
        (let neg = (c = CHR ''-'');
             t = (if c = CHR ''+'' \<or> c = CHR ''-'' then cs else s)
         in case ParseUint t of
              Inl ErrSyntax \<Rightarrow> Inl ErrSyntax
            | Inl ErrRange \<Rightarrow> Inl ErrRange
            | Inr un \<Rightarrow>
               if \<not> neg \<and> un \<ge> 2 ^ 63 then Inl ErrRange
               else if neg \<and> un > 2 ^ 63 then Inl ErrRange
               else Inr (if neg then - int un else int un)))"

text \<open>
  \<open>fmt.Sscanf\<close> reads runes from the string. \<open>SkipSpace\<close> (outside \<open>Scanln\<close>) skips white
  space and fails on a newline.
\<close>

fun SkipSpace :: "string \<Rightarrow> string option" where
  "SkipSpace [] = Some []"
| "SkipSpace (c # cs) =
     (if c = CHR 0x0A then None
      else (case filter (hasPrefix (c # cs)) spaceRunes of
              [] \<Rightarrow> Some (c # cs)
            | r # _ \<Rightarrow> SkipSpace (drop (length r - 1) cs)))"

text \<open>
  The verb \<open>%d\<close> into a \<open>uint\<close>: skip space, take the longest run of decimal digits (at
  least one), convert it with \<open>ParseUint\<close>. The result is the value and the rest of the
  input; \<open>None\<close> is any scan error.
\<close>

definition scanUint :: "string \<Rightarrow> (u64 \<times> string) option" where
  "scanUint s =
    (case SkipSpace s of
       None \<Rightarrow> None
     | Some s1 \<Rightarrow>
        (let tok = takeWhile isDigit s1 in
         if tok = [] then None
         else (case ParseUint tok of
                 Inl _ \<Rightarrow> None
               | Inr n \<Rightarrow> Some (word_of_nat n, dropWhile isDigit s1))))"

text \<open>
  \<open>fmt.Sscanf(id, "%d-%d", &start, &end)\<close> with \<open>start, end uint\<close>: \<open>Some (start, end)\<close>
  when it returns \<open>n = 2\<close> and no error, \<open>None\<close> otherwise. Input after the second number
  is not read.
\<close>

definition Sscanf :: "string \<Rightarrow> (u64 \<times> u64) option" where
  "Sscanf s =
    (case SkipSpace s of
       None \<Rightarrow> None
     | Some s0 \<Rightarrow>
        (case scanUint s0 of
           None \<Rightarrow> None
         | Some (start, s1) \<Rightarrow>
            (case s1 of
               [] \<Rightarrow> None
             | c # s2 \<Rightarrow>
                if c \<noteq> CHR ''-'' then None
                else (case SkipSpace s2 of
                        None \<Rightarrow> None
                      | Some s3 \<Rightarrow>
                         (case scanUint s3 of
                            None \<Rightarrow> None
                          | Some (en, _) \<Rightarrow> Some (start, en))))))"

section \<open>Identifier parsing (parseIDs, removeDuplicateValues, parseIntRanges, parseCores)\<close>

definition maxIDsSize :: nat where
  "maxIDsSize = 2 ^ 13"

text \<open>One constructor for each error the parser builds with \<open>fmt.Errorf\<close>.\<close>

datatype parseError =
    ErrEqualOrGreater u64 u64
  | ErrExceedsMaxSize
  | ErrWrongFormat string numError

text \<open>
  The loop \<open>for ; start <= end; start++\<close> of parseIDs. \<open>start\<close> is a \<open>uint\<close>, so
  \<open>start++\<close> wraps; \<open>int(start)\<close> is \<open>sint start\<close>.
\<close>

function rangeLoop :: "u64 \<Rightarrow> u64 \<Rightarrow> int list \<Rightarrow> parseError + int list" where
  "rangeLoop start en result =
     (if start \<le> en then
        (if length result + 1 > maxIDsSize then Inl ErrExceedsMaxSize
         else rangeLoop (start + 1) en (result @ [sint start]))
      else Inr result)"
  by pat_completeness auto
termination
  by (relation "measure (\<lambda>(start, en, result). maxIDsSize - length result)") auto

text \<open>The body of the inner loop of parseIDs, for one element \<open>id\<close> of the split.\<close>

definition parseID :: "int list \<Rightarrow> string \<Rightarrow> parseError + int list" where
  "parseID result id0 =
    (let id = TrimSpace id0 in
     case Sscanf id of
       Some (start, en) \<Rightarrow>
         if start \<ge> en then Inl (ErrEqualOrGreater start en)
         else rangeLoop start en result
     | None \<Rightarrow>
        (case Atoi id of
           Inl err \<Rightarrow> Inl (ErrWrongFormat id err)
         | Inr num \<Rightarrow>
            if length result + 1 > maxIDsSize then Inl ErrExceedsMaxSize
            else Inr (result @ [num])))"

fun parseIDsInner :: "int list \<Rightarrow> string list \<Rightarrow> parseError + int list" where
  "parseIDsInner result [] = Inr result"
| "parseIDsInner result (i # ids) =
     (case parseID result i of
        Inl e \<Rightarrow> Inl e
      | Inr result' \<Rightarrow> parseIDsInner result' ids)"

fun parseIDsOuter :: "int list \<Rightarrow> string list \<Rightarrow> parseError + int list" where
  "parseIDsOuter result [] = Inr result"
| "parseIDsOuter result (idsString # rest) =
     (case parseIDsInner result (Split idsString (CHR '','')) of
        Inl e \<Rightarrow> Inl e
      | Inr result' \<Rightarrow> parseIDsOuter result' rest)"

definition parseIDs :: "string list \<Rightarrow> parseError + int list" where
  "parseIDs allIDsStrings = parseIDsOuter [] allIDsStrings"

text \<open>
  removeDuplicateValues: \<open>keys\<close> is the \<open>map[int]bool\<close> of the entries seen; \<open>result\<close>
  and \<open>duplicates\<close> start as nil slices and grow by \<open>append\<close>.
\<close>

definition removeDuplicateStep ::
  "(int \<rightharpoonup> bool) \<times> int list \<times> int list \<Rightarrow> int \<Rightarrow> (int \<rightharpoonup> bool) \<times> int list \<times> int list" where
  "removeDuplicateStep st entry =
    (case st of (keys, result, duplicates) \<Rightarrow>
       if keys entry = None then (keys(entry \<mapsto> True), result @ [entry], duplicates)
       else (keys, result, duplicates @ [entry]))"

definition removeDuplicateValues :: "int list \<Rightarrow> int list \<times> int list" where
  "removeDuplicateValues intSlice =
    (case foldl removeDuplicateStep (Map.empty, [], []) intSlice of
       (keys, result, duplicates) \<Rightarrow> (result, duplicates))"

text \<open>
  Errors: \<open>ErrExternal\<close> is an error made outside msr.go (checkFile, \<open>os.Open\<close>, the file
  service); \<open>ErrContextCanceled\<close> is \<open>ctx.Err()\<close>; the others are the \<open>fmt.Errorf\<close> wrappers
  of msr.go around their cause.
\<close>

datatype msrError =
    ErrExternal string
  | ErrContextCanceled
  | ErrOpeningMSRFile string msrError
  | ErrReadingDataFromMSR string msrError
  | ErrReceivedDuringReading msrError
  | ErrReadingMSRFile msrError

text \<open>What the functions write to the logger, in order.\<close>

datatype logEntry =
    DebugAllCores
  | WarnEmptyCores
  | WarnParseError parseError
  | WarnDuplicated int
  | DebugCoreDataNotFound
  | LogError msrError

definition parseIntRanges :: "string list \<Rightarrow> parseError + (int list \<times> logEntry list)" where
  "parseIntRanges ranges =
    (case parseIDs ranges of
       Inl err \<Rightarrow> Inl err
     | Inr ids \<Rightarrow>
        (case removeDuplicateValues ids of
           (ids', duplicatedIDs) \<Rightarrow> Inr (ids', map WarnDuplicated duplicatedIDs)))"

text \<open>
  A slice is \<open>None\<close> when it is nil. A slice that was declared without a value and grown
  by \<open>append\<close> is nil exactly when nothing was appended (\<open>sliceOf\<close>).
\<close>

definition sliceOf :: "'a list \<Rightarrow> 'a list option" where
  "sliceOf xs = (if xs = [] then None else Some xs)"

definition parseCores :: "string list option \<Rightarrow> int list option \<times> logEntry list" where
  "parseCores cores =
    (case cores of
       None \<Rightarrow> (None, [DebugAllCores])
     | Some cs \<Rightarrow>
        if length cs = 0 then (None, [WarnEmptyCores])
        else (case parseIntRanges cs of
                Inl err \<Rightarrow> (None, [WarnParseError err])
              | Inr (result, logs) \<Rightarrow> (sliceOf result, logs)))"

text \<open>
  For stating what removeDuplicateValues returns: the entries of a list that occur for the
  first time at their position, and those that occurred before, both in list order.
\<close>

definition firstOccurrences :: "int list \<Rightarrow> int list" where
  "firstOccurrences xs = [xs ! i. i \<leftarrow> [0..<length xs], xs ! i \<notin> set (take i xs)]"

definition laterOccurrences :: "int list \<Rightarrow> int list" where
  "laterOccurrences xs = [xs ! i. i \<leftarrow> [0..<length xs], xs ! i \<in> set (take i xs)]"

text \<open>
  For stating the claims: the number a string of decimal digits denotes, and the tokens of a
  list of specification strings in the order parseIDs meets them.
\<close>

definition digitsVal :: "string \<Rightarrow> nat" where
  "digitsVal ds = foldl (\<lambda>n c. n * 10 + digitVal c) 0 ds"

definition tokensOf :: "string list \<Rightarrow> string list" where
  "tokensOf specs = concat (map (\<lambda>s. Split s (CHR '','')) specs)"

section \<open>The MSR service (msrServiceImpl)\<close>

text \<open>MSR offsets (\<open>int64\<close> in the source) and the path of the MSR device file of a core.\<close>

definition c3StateResidencyLocation :: int where "c3StateResidencyLocation = 0x3FC"
definition c6StateResidencyLocation :: int where "c6StateResidencyLocation = 0x3FD"
definition c7StateResidencyLocation :: int where "c7StateResidencyLocation = 0x3FE"
definition maximumFrequencyClockCountLocation :: int where "maximumFrequencyClockCountLocation = 0xE7"
definition actualFrequencyClockCountLocation :: int where "actualFrequencyClockCountLocation = 0xE8"
definition throttleTemperatureLocation :: int where "throttleTemperatureLocation = 0x1A2"
definition temperatureLocation :: int where "temperatureLocation = 0x19C"
definition timestampCounterLocation :: int where "timestampCounterLocation = 0x10"

definition msrPath :: "string \<Rightarrow> string" where
  "msrPath core = ''/dev/cpu/'' @ core @ ''/msr''"

text \<open>
  Modelled from the spec: the declaration of \<open>msrData\<close> is not in msr.go. The fields are
  those of the literal in setCPUCores, the spec's CoreSample: a current value for each of
  the 8 tracked registers and a delta for the six counters. The counters are \<open>uint64\<close>;
  \<open>throttleTemp\<close> and \<open>temp\<close> are \<open>int64\<close>, kept as the 64-bit word (\<open>sint\<close> reads it).
\<close>

record msrData =
  mperf :: u64
  aperf :: u64
  timeStampCounter :: u64
  c3 :: u64
  c6 :: u64
  c7 :: u64
  throttleTemp :: u64
  temp :: u64
  mperfDelta :: u64
  aperfDelta :: u64
  timeStampCounterDelta :: u64
  c3Delta :: u64
  c6Delta :: u64
  c7Delta :: u64

text \<open>
  What is outside msr.go is a parameter. An open MSR file is known by what
  \<open>fs.readFileAtOffsetToUint64\<close> returns on it at each offset (\<open>reader\<close>); readDataFromMsr
  reads each offset once. The file system gives the result of checkFile and of \<open>os.Open\<close>
  for a path.
\<close>

type_synonym reader = "int \<Rightarrow> msrError + u64"

record fileSystem =
  checkFile :: "string \<Rightarrow> msrError option"
  osOpen :: "string \<Rightarrow> msrError + reader"

text \<open>
  The fields of msrServiceImpl that msr.go computes with. \<open>cpuCoresData\<close> maps a core to
  the \<open>msrData\<close> its pointer refers to (each key has its own); a key that is absent looks
  up as the nil pointer. \<open>cpuCores\<close> is \<open>None\<close> when the slice is nil.
\<close>

record msrServiceImpl =
  cpuCoresData :: "string \<rightharpoonup> msrData"
  cpuCores :: "int list option"
  msrOffsets :: "int list"

text \<open>A call returns a value or panics (a nil pointer dereference).\<close>

datatype 'a outcome = Returns 'a | Panics

subsection \<open>readDataFromMsr: the goroutines\<close>

text \<open>
  readDataFromMsr makes one unbuffered channel and one goroutine for each key of
  \<open>msrOffsetsWithChannels\<close>, that is for each offset in \<open>msrOffsets\<close>. A goroutine is
  \<^item> \<open>Reading\<close>: it has not got the result of \<open>readFileAtOffsetToUint64\<close> yet;
  \<^item> \<open>Sending v\<close>: it read \<open>v\<close> and waits in the \<open>select\<close>;
  \<^item> \<open>Returned r\<close>: its function returned \<open>r\<close> and the deferred \<open>close(ch)\<close> ran;
  \<^item> \<open>Finished\<close>: the errgroup took the result.
  The errgroup keeps the first error returned (\<open>firstErr\<close>) and cancels the context when it
  stores it, so \<open>ctx.Done()\<close> is ready exactly when \<open>firstErr\<close> is set. The main goroutine
  receives from the 8 channels in the order of \<open>receiveOrder\<close>; \<open>received\<close> are the values
  it has got so far.
\<close>

datatype goroutine = Reading | Sending u64 | Returned "msrError option" | Finished

record group =
  routines :: "int \<rightharpoonup> goroutine"
  firstErr :: "msrError option"
  received :: "u64 list"

definition receiveOrder :: "int list" where
  "receiveOrder =
    [c3StateResidencyLocation, c6StateResidencyLocation, c7StateResidencyLocation,
     maximumFrequencyClockCountLocation, actualFrequencyClockCountLocation,
     timestampCounterLocation, throttleTemperatureLocation, temperatureLocation]"

definition startGroup :: "int list \<Rightarrow> group" where
  "startGroup offsets =
    \<lparr>routines = (\<lambda>off. if off \<in> set offsets then Some Reading else None),
     firstErr = None, received = []\<rparr>"

text \<open>
  The steps of an execution:
  \<^item> \<open>Read off\<close>: the read of goroutine \<open>off\<close> completes; on an error the goroutine returns
    it wrapped;
  \<^item> \<open>CtxDone off\<close>: the \<open>select\<close> of goroutine \<open>off\<close> takes \<open>ctx.Done()\<close>;
  \<^item> \<open>Send off\<close>: the \<open>select\<close> of goroutine \<open>off\<close> sends to the main goroutine, which is
    receiving from this channel;
  \<^item> \<open>Exit off\<close>: the errgroup takes the result of goroutine \<open>off\<close>;
  \<^item> \<open>RecvClosed\<close>: the main goroutine receives the zero value from the channel it waits
    for, which is closed.
  A receive from a channel that is not in the map (a nil channel) has no step: it blocks.
\<close>

datatype action = Read int | CtxDone int | Send int | Exit int | RecvClosed

fun step :: "reader \<Rightarrow> action \<Rightarrow> group \<Rightarrow> group option" where
  "step rd (Read off) g =
     (case routines g off of
        Some Reading \<Rightarrow>
          (case rd off of
             Inl err \<Rightarrow> Some (g\<lparr>routines := (routines g)(off \<mapsto> Returned (Some (ErrReadingMSRFile err)))\<rparr>)
           | Inr v \<Rightarrow> Some (g\<lparr>routines := (routines g)(off \<mapsto> Sending v)\<rparr>))
      | _ \<Rightarrow> None)"
| "step rd (CtxDone off) g =
     (case routines g off of
        Some (Sending v) \<Rightarrow>
          if firstErr g \<noteq> None
          then Some (g\<lparr>routines := (routines g)(off \<mapsto> Returned (Some (ErrReadingMSRFile ErrContextCanceled)))\<rparr>)
          else None
      | _ \<Rightarrow> None)"
| "step rd (Send off) g =
     (case routines g off of
        Some (Sending v) \<Rightarrow>
          if length (received g) < length receiveOrder \<and> receiveOrder ! length (received g) = off
          then Some (g\<lparr>routines := (routines g)(off \<mapsto> Returned None), received := received g @ [v]\<rparr>)
          else None
      | _ \<Rightarrow> None)"
| "step rd (Exit off) g =
     (case routines g off of
        Some (Returned r) \<Rightarrow>
          Some (g\<lparr>routines := (routines g)(off \<mapsto> Finished),
                 firstErr := (case firstErr g of None \<Rightarrow> r | Some err \<Rightarrow> Some err)\<rparr>)
      | _ \<Rightarrow> None)"
| "step rd RecvClosed g =
     (if length (received g) < length receiveOrder
      then (case routines g (receiveOrder ! length (received g)) of
              Some (Returned r) \<Rightarrow> Some (g\<lparr>received := received g @ [0]\<rparr>)
            | Some Finished \<Rightarrow> Some (g\<lparr>received := received g @ [0]\<rparr>)
            | _ \<Rightarrow> None)
      else None)"

fun run :: "reader \<Rightarrow> action list \<Rightarrow> group \<Rightarrow> group option" where
  "run rd [] g = Some g"
| "run rd (a # as) g = (case step rd a g of None \<Rightarrow> None | Some g' \<Rightarrow> run rd as g')"

text \<open>\<open>g.Wait()\<close> returns when every goroutine has finished, after the 8 receives.\<close>

definition waitReturns :: "int list \<Rightarrow> group \<Rightarrow> bool" where
  "waitReturns offsets g \<longleftrightarrow>
     length (received g) = length receiveOrder \<and>
     list_all (\<lambda>off. routines g off = Some Finished) offsets"

text \<open>The assignments at the end of readDataFromMsr, to the \<open>msrData\<close> of the core.\<close>

definition storeValues :: "msrData \<Rightarrow> u64 list \<Rightarrow> msrData" where
  "storeValues d vs =
    (let newC3 = vs ! 0; newC6 = vs ! 1; newC7 = vs ! 2; newMperf = vs ! 3;
         newAperf = vs ! 4; newTsc = vs ! 5; newThrottleTemp = vs ! 6; newTemp = vs ! 7
     in d\<lparr>c3Delta := newC3 - c3 d,
           c6Delta := newC6 - c6 d,
           c7Delta := newC7 - c7 d,
           mperfDelta := newMperf - mperf d,
           aperfDelta := newAperf - aperf d,
           timeStampCounterDelta := newTsc - timeStampCounter d,
           c3 := newC3,
           c6 := newC6,
           c7 := newC7,
           mperf := newMperf,
           aperf := newAperf,
           timeStampCounter := newTsc,
           throttleTemp := drop_bit 16 newThrottleTemp AND 0xFF,
           temp := drop_bit 16 newTemp AND 0x7F\<rparr>)"

text \<open>
  readDataFromMsr for one execution, given as the list \<open>sched\<close> of its steps. The result
  is \<open>None\<close> when \<open>sched\<close> is not an execution up to the return of \<open>g.Wait()\<close>; otherwise it
  is the error returned and the service after the call, or a panic when the core has no
  \<open>msrData\<close>.
\<close>

definition readDataFromMsr ::
  "msrServiceImpl \<Rightarrow> action list \<Rightarrow> string \<Rightarrow> reader \<Rightarrow>
   (msrError option \<times> msrServiceImpl) outcome option" where
  "readDataFromMsr m sched core rd =
    (case run rd sched (startGroup (msrOffsets m)) of
       None \<Rightarrow> None
     | Some g \<Rightarrow>
        if \<not> waitReturns (msrOffsets m) g then None
        else (case firstErr g of
                Some err \<Rightarrow> Some (Returns (Some (ErrReceivedDuringReading err), m))
              | None \<Rightarrow>
                 (case cpuCoresData m core of
                    None \<Rightarrow> Some Panics
                  | Some d \<Rightarrow>
                     Some (Returns (None,
                       m\<lparr>cpuCoresData := (cpuCoresData m)(core \<mapsto> storeValues d (received g))\<rparr>)))))"

definition openAndReadMsr ::
  "msrServiceImpl \<Rightarrow> fileSystem \<Rightarrow> action list \<Rightarrow> string \<Rightarrow>
   (msrError option \<times> msrServiceImpl) outcome option" where
  "openAndReadMsr m fs sched core =
    (let path = msrPath core in
     case checkFile fs path of
       Some err \<Rightarrow> Some (Returns (Some err, m))
     | None \<Rightarrow>
        (case osOpen fs path of
           Inl err \<Rightarrow> Some (Returns (Some (ErrOpeningMSRFile path err), m))
         | Inr msrFile \<Rightarrow>
            (case readDataFromMsr m sched core msrFile of
               None \<Rightarrow> None
             | Some Panics \<Rightarrow> Some Panics
             | Some (Returns (Some err, m')) \<Rightarrow>
                 Some (Returns (Some (ErrReadingDataFromMSR core err), m'))
             | Some (Returns (None, m')) \<Rightarrow> Some (Returns (None, m')))))"

text \<open>
  isMsrLoaded ranges over the keys of \<open>cpuCoresData\<close> in an order that Go does not fix:
  \<open>keys\<close> is that order, and \<open>scheds cpuID\<close> the execution of the read for \<open>cpuID\<close>.
\<close>

fun isMsrLoadedLoop ::
  "msrServiceImpl \<Rightarrow> fileSystem \<Rightarrow> (string \<Rightarrow> action list) \<Rightarrow> string list \<Rightarrow>
   (bool \<times> msrServiceImpl) outcome option" where
  "isMsrLoadedLoop m fs scheds [] = Some (Returns (False, m))"
| "isMsrLoadedLoop m fs scheds (cpuID # rest) =
     (case openAndReadMsr m fs (scheds cpuID) cpuID of
        None \<Rightarrow> None
      | Some Panics \<Rightarrow> Some Panics
      | Some (Returns (None, m')) \<Rightarrow> Some (Returns (True, m'))
      | Some (Returns (Some err, m')) \<Rightarrow> isMsrLoadedLoop m' fs scheds rest)"

definition isMsrLoaded ::
  "msrServiceImpl \<Rightarrow> fileSystem \<Rightarrow> (string \<Rightarrow> action list) \<Rightarrow> string list \<Rightarrow>
   (bool \<times> msrServiceImpl) outcome option" where
  "isMsrLoaded m fs scheds keys =
    (if distinct keys \<and> set keys = dom (cpuCoresData m)
     then isMsrLoadedLoop m fs scheds keys else None)"

text \<open>
  The execution in which the goroutines run one after the other, in the order of the
  receives.
\<close>

definition sequentialSteps :: "reader \<Rightarrow> int \<Rightarrow> action list" where
  "sequentialSteps rd off =
    (case rd off of
       Inl err \<Rightarrow> [Read off, RecvClosed, Exit off]
     | Inr v \<Rightarrow> [Read off, Send off, Exit off])"

definition sequentialSchedule :: "reader \<Rightarrow> action list" where
  "sequentialSchedule rd = concat (map (sequentialSteps rd) receiveOrder)"

subsection \<open>Setting up the service (setCPUCores, newMsrServiceWithFs)\<close>

text \<open>
  \<open>filepath.Base\<close> on Linux, \<open>strings.TrimPrefix\<close>, and the value \<open>strconv.Atoi\<close> returns
  next to its error, which setCPUCores uses without looking at the error.
\<close>

definition Base :: "string \<Rightarrow> string" where
  "Base path =
    (if path = [] then ''.''
     else (let p = rev (dropWhile (\<lambda>c. c = CHR ''/'') (rev path)) in
           if p = [] then ''/''
           else rev (takeWhile (\<lambda>c. c \<noteq> CHR ''/'') (rev p))))"

definition TrimPrefix :: "string \<Rightarrow> string \<Rightarrow> string" where
  "TrimPrefix s p = (if hasPrefix s p then drop (length p) s else s)"

definition AtoiValue :: "string \<Rightarrow> int" where
  "AtoiValue s =
    (case Atoi s of
       Inr n \<Rightarrow> n
     | Inl ErrSyntax \<Rightarrow> 0
     | Inl ErrRange \<Rightarrow> if hd s = CHR ''-'' then - (2 ^ 63) else 2 ^ 63 - 1)"

text \<open>
  The generic \<open>contains\<close> of msr.go; setCPUCores calls it as \<open>Contains\<close>.
\<close>

fun contains :: "'a list \<Rightarrow> 'a \<Rightarrow> bool" where
  "contains [] e = False"
| "contains (v # s) e = (if v = e then True else contains s e)"

text \<open>The \<open>msrData\<close> literal of setCPUCores.\<close>

definition newMsrData :: msrData where
  "newMsrData =
    \<lparr>mperf = 0, aperf = 0, timeStampCounter = 0, c3 = 0, c6 = 0, c7 = 0,
     throttleTemp = 0, temp = 0, mperfDelta = 0, aperfDelta = 0,
     timeStampCounterDelta = 0, c3Delta = 0, c6Delta = 0, c7Delta = 0\<rparr>"

fun setCPUCoresLoop ::
  "int list option \<Rightarrow> (string \<rightharpoonup> msrData) \<Rightarrow> string list \<Rightarrow> (string \<rightharpoonup> msrData)" where
  "setCPUCoresLoop cs dat [] = dat"
| "setCPUCoresLoop cs dat (cpuPath # rest) =
     (let core = TrimPrefix (Base cpuPath) ''cpu'' in
      case cs of
        Some cores \<Rightarrow>
          if \<not> contains cores (AtoiValue core) then setCPUCoresLoop cs dat rest
          else setCPUCoresLoop cs (dat(core \<mapsto> newMsrData)) rest
      | None \<Rightarrow> setCPUCoresLoop cs (dat(core \<mapsto> newMsrData)) rest)"

text \<open>
  setCPUCores; \<open>paths\<close> is what \<open>fs.getStringsMatchingPatternOnPath\<close> returns for the
  pattern of the CPU directories.
\<close>

definition setCPUCores ::
  "msrServiceImpl \<Rightarrow> msrError + string list \<Rightarrow>
   msrError option \<times> msrServiceImpl \<times> logEntry list" where
  "setCPUCores m paths =
    (let m1 = m\<lparr>cpuCoresData := Map.empty\<rparr> in
     case paths of
       Inl err \<Rightarrow> (Some err, m1, [])
     | Inr cpuPaths \<Rightarrow>
        if length cpuPaths = 0 then (None, m1, [DebugCoreDataNotFound])
        else (None,
              m1\<lparr>cpuCoresData := setCPUCoresLoop (cpuCores m1) (cpuCoresData m1) cpuPaths\<rparr>,
              []))"

definition newMsrServiceWithFs ::
  "string list option \<Rightarrow> msrError + string list \<Rightarrow> msrServiceImpl \<times> logEntry list" where
  "newMsrServiceWithFs cores paths =
    (case parseCores cores of
       (parsedCores, logs1) \<Rightarrow>
         (case setCPUCores \<lparr>cpuCoresData = Map.empty, cpuCores = parsedCores, msrOffsets = []\<rparr> paths of
            (err, msrService, logs2) \<Rightarrow>
              (msrService\<lparr>msrOffsets :=
                 [c3StateResidencyLocation, c6StateResidencyLocation, c7StateResidencyLocation,
                  maximumFrequencyClockCountLocation, actualFrequencyClockCountLocation,
                  timestampCounterLocation, throttleTemperatureLocation, temperatureLocation]\<rparr>,
               logs1 @ logs2 @ (case err of None \<Rightarrow> [] | Some e \<Rightarrow> [LogError e]))))"

subsection \<open>What holds during an execution of readDataFromMsr\<close>

text \<open>
  \<open>groupInv rd offsets g\<close> collects what holds of every state \<open>g\<close> of an execution on the
  reader \<open>rd\<close> with goroutines for \<open>offsets\<close>: a goroutine that returned an error had
  its read fail, or was cancelled after the first error; the first error is a failed read;
  a goroutine whose read fails never delivers; and while there is no error, every value
  sent or received is the value read at its offset.
\<close>

definition groupInv :: "reader \<Rightarrow> int list \<Rightarrow> group \<Rightarrow> bool" where
  "groupInv rd offsets g \<longleftrightarrow>
     (\<forall>off. routines g off \<noteq> None \<longrightarrow> off \<in> set offsets) \<and>
     length (received g) \<le> length receiveOrder \<and>
     (\<forall>off x. routines g off = Some (Returned (Some x)) \<longrightarrow>
        (\<exists>e. rd off = Inl e \<and> x = ErrReadingMSRFile e) \<or> firstErr g \<noteq> None) \<and>
     (\<forall>x. firstErr g = Some x \<longrightarrow>
        (\<exists>off e. off \<in> set offsets \<and> rd off = Inl e \<and> x = ErrReadingMSRFile e)) \<and>
     (\<forall>off e. off \<in> set offsets \<and> rd off = Inl e \<longrightarrow>
        routines g off = Some Reading \<or> (\<exists>x. routines g off = Some (Returned (Some x))) \<or>
        firstErr g \<noteq> None) \<and>
     (firstErr g = None \<longrightarrow>
        (\<forall>off v. routines g off = Some (Sending v) \<longrightarrow> rd off = Inr v) \<and>
        (\<forall>off. routines g off = Some (Returned None) \<or> routines g off = Some Finished \<longrightarrow>
           (\<exists>i < length (received g). receiveOrder ! i = off \<and> rd off = Inr (received g ! i))) \<and>
        (\<forall>i < length (received g).
           rd (receiveOrder ! i) = Inr (received g ! i) \<or>
           (\<exists>x. routines g (receiveOrder ! i) = Some (Returned (Some x)))))"

subsection \<open>For stating the claims about the service\<close>

text \<open>
  The six counter registers: the offset that is read, the field of the current value and
  the field of the delta.
\<close>

definition counters :: "(int \<times> (msrData \<Rightarrow> u64) \<times> (msrData \<Rightarrow> u64)) list" where
  "counters =
    [(c3StateResidencyLocation, c3, c3Delta),
     (c6StateResidencyLocation, c6, c6Delta),
     (c7StateResidencyLocation, c7, c7Delta),
     (maximumFrequencyClockCountLocation, mperf, mperfDelta),
     (actualFrequencyClockCountLocation, aperf, aperfDelta),
     (timestampCounterLocation, timeStampCounter, timeStampCounterDelta)]"

text \<open>
  The register source of a core can be opened and read: checkFile accepts the path, the
  file opens, and the read of every offset of \<open>msrOffsets\<close> succeeds.
\<close>

definition readable :: "fileSystem \<Rightarrow> msrServiceImpl \<Rightarrow> string \<Rightarrow> bool" where
  "readable fs m core \<longleftrightarrow>
     checkFile fs (msrPath core) = None \<and>
     (case osOpen fs (msrPath core) of
        Inl err \<Rightarrow> False
      | Inr rd \<Rightarrow> list_all (\<lambda>off. case rd off of Inl err \<Rightarrow> False | Inr v \<Rightarrow> True) (msrOffsets m))"

text \<open>
  Inputs for the examples: a machine with the CPUs 0 and 1 and the service made for the
  core specification \<open>["0"]\<close>; a reader on which every read succeeds, and one on which the
  read of one offset fails; a file system on which every MSR file opens to the same reader.
  \<open>interleavedSchedule\<close> is an execution on \<open>failingReader\<close> in which all goroutines
  read first, four values are received, and three goroutines are cancelled.
\<close>

definition exampleService :: msrServiceImpl where
  "exampleService =
    fst (newMsrServiceWithFs (Some [''0''])
          (Inr [''/sys/devices/system/cpu/cpu0'', ''/sys/devices/system/cpu/cpu1'']))"

definition exampleReader :: reader where
  "exampleReader off =
    (if off = throttleTemperatureLocation then Inr 0x00AB1234
     else if off = temperatureLocation then Inr 0x88FF0000
     else Inr 3)"

definition failingReader :: reader where
  "failingReader off =
    (if off = actualFrequencyClockCountLocation then Inl (ErrExternal ''read'')
     else exampleReader off)"

definition exampleFs :: "reader \<Rightarrow> fileSystem" where
  "exampleFs rd = \<lparr>checkFile = (\<lambda>path. None), osOpen = (\<lambda>path. Inr rd)\<rparr>"

definition interleavedSchedule :: "action list" where
  "interleavedSchedule =
    [Read temperatureLocation, Read throttleTemperatureLocation, Read timestampCounterLocation,
     Read actualFrequencyClockCountLocation, Read maximumFrequencyClockCountLocation,
     Read c7StateResidencyLocation, Read c6StateResidencyLocation, Read c3StateResidencyLocation,
     Send c3StateResidencyLocation, Send c6StateResidencyLocation,
     Exit actualFrequencyClockCountLocation,
     CtxDone temperatureLocation,
     Send c7StateResidencyLocation, Send maximumFrequencyClockCountLocation,
     RecvClosed,
     CtxDone timestampCounterLocation, RecvClosed,
     CtxDone throttleTemperatureLocation, RecvClosed, RecvClosed,
     Exit c3StateResidencyLocation, Exit temperatureLocation, Exit c6StateResidencyLocation,
     Exit c7StateResidencyLocation, Exit maximumFrequencyClockCountLocation,
     Exit timestampCounterLocation, Exit throttleTemperatureLocation]"

text \<open>The example service after a refresh that stored 5 for the C3 counter.\<close>

definition wrappedService :: msrServiceImpl where
  "wrappedService = exampleService\<lparr>cpuCoresData := [''0'' \<mapsto> newMsrData\<lparr>c3 := 5\<rparr>]\<rparr>"

text \<open>The executions in which, for every core, the goroutines run one after the other.\<close>

definition sequentialSchedules :: "fileSystem \<Rightarrow> string \<Rightarrow> action list" where
  "sequentialSchedules fs core =
    (case osOpen fs (msrPath core) of Inl err \<Rightarrow> [] | Inr rd \<Rightarrow> sequentialSchedule rd)"

text \<open>
  More inputs for the examples: the service for a nil core specification on the machine
  with the CPUs 0 and 1; a file system on which the MSR file of core 0 is missing, and one
  on which every MSR file is missing.
\<close>

definition twoCoreService :: msrServiceImpl where
  "twoCoreService =
    fst (newMsrServiceWithFs None
          (Inr [''/sys/devices/system/cpu/cpu0'', ''/sys/devices/system/cpu/cpu1'']))"

definition halfFs :: fileSystem where
  "halfFs =
    \<lparr>checkFile = (\<lambda>path. if path = ''/dev/cpu/0/msr'' then Some (ErrExternal ''missing'') else None),
     osOpen = (\<lambda>path. Inr exampleReader)\<rparr>"

definition deadFs :: fileSystem where
  "deadFs = \<lparr>checkFile = (\<lambda>path. Some (ErrExternal ''missing'')), osOpen = (\<lambda>path. Inr exampleReader)\<rparr>"

subsection \<open>Progress of an execution\<close>

text \<open>
  \<open>stepsLeft\<close> bounds the number of steps an execution can still take: a goroutine has
  at most three steps before it (read, send or cancel, exit), and the main goroutine one
  for each value it has not received. \<open>mainInv\<close> holds of every state of an execution:
  each offset has its goroutine, and the channels the main goroutine has received from
  are closed.
\<close>

definition routineWeight :: "goroutine option \<Rightarrow> nat" where
  "routineWeight r =
    (case r of
       None \<Rightarrow> 0
     | Some Reading \<Rightarrow> 3
     | Some (Sending v) \<Rightarrow> 2
     | Some (Returned e) \<Rightarrow> 1
     | Some Finished \<Rightarrow> 0)"

definition stepsLeft :: "int list \<Rightarrow> group \<Rightarrow> nat" where
  "stepsLeft offsets g =
    (\<Sum>off\<in>set offsets. routineWeight (routines g off)) +
    (length receiveOrder - length (received g))"

definition mainInv :: "int list \<Rightarrow> group \<Rightarrow> bool" where
  "mainInv offsets g \<longleftrightarrow>
     (\<forall>off\<in>set offsets. routines g off \<noteq> None) \<and>
     (\<forall>i < length (received g).
        (\<exists>r. routines g (receiveOrder ! i) = Some (Returned r)) \<or>
        routines g (receiveOrder ! i) = Some Finished)"

section \<open>Properties of the identifier parser\<close>

subsection \<open>The range loop\<close>

declare rangeLoop.simps [simp del]

lemma unat_max: "unat (- 1 :: u64) = 2 ^ 64 - 1"
  by (simp add: unsigned_minus_1_eq_mask mask_eq_exp_minus_1)

lemma unat_not_max: "(e :: u64) \<noteq> - 1 \<longleftrightarrow> unat e < 2 ^ 64 - 1"
proof
  assume a: "e \<noteq> - 1"
  have "unat e < 2 ^ 64" using unsigned_less [of e, where 'a = nat] by simp
  moreover have "unat e \<noteq> 2 ^ 64 - 1"
  proof
    assume "unat e = 2 ^ 64 - 1"
    then have "unat e = unat (- 1 :: u64)" by (simp only: unat_max)
    then have "e = - 1" by (simp only: word_unat_eq_iff)
    with a show False by simp
  qed
  ultimately show "unat e < 2 ^ 64 - 1" by simp
next
  assume "unat e < 2 ^ 64 - 1"
  then show "e \<noteq> - 1" using unat_max by auto
qed

lemma unat_succ: "(s :: u64) \<noteq> - 1 \<Longrightarrow> unat (s + 1) = Suc (unat s)"
  using unatSuc [of s] max_word_wrap [of s] by (auto simp: add.commute)

lemma sint_small: "n < 2 ^ 63 \<Longrightarrow> sint (word_of_nat n :: u64) = int n"
proof -
  assume "n < 2 ^ 63"
  then have "int n < 2 ^ 63" by (metis of_nat_less_iff of_nat_numeral of_nat_power)
  then show ?thesis
    by (simp add: signed_of_nat signed_take_bit_int_eq_self)
qed

lemma rangeLoop_Inr_length:
  "rangeLoop s e r = Inr r' \<Longrightarrow> length r \<le> length r' \<and> (s \<le> e \<longrightarrow> length r < length r')"
proof (induction s e r rule: rangeLoop.induct)
  case (1 start en result)
  show ?case
  proof (cases "start \<le> en")
    case True
    with "1.prems" have c: "\<not> length result + 1 > maxIDsSize"
      and r: "rangeLoop (start + 1) en (result @ [sint start]) = Inr r'"
      by (subst (asm) rangeLoop.simps, simp split: if_splits)+
    from "1.IH" [OF True c r] show ?thesis by simp
  next
    case False
    with "1.prems" show ?thesis by (subst (asm) rangeLoop.simps) simp
  qed
qed

lemma rangeLoop_wrap:
  "length r \<le> maxIDsSize \<Longrightarrow> rangeLoop s (- 1) r = Inl ErrExceedsMaxSize"
proof (induction "maxIDsSize - length r" arbitrary: s r)
  case 0
  then show ?case by (subst rangeLoop.simps) simp
next
  case (Suc k)
  then have "rangeLoop (s + 1) (- 1) (r @ [sint s]) = Inl ErrExceedsMaxSize"
    by (intro Suc.hyps) auto
  then show ?case using Suc.hyps(2) by (subst rangeLoop.simps) simp
qed

lemma rangeLoop_exact:
  "length r \<le> maxIDsSize \<Longrightarrow> e \<noteq> - 1 \<Longrightarrow> unat s \<le> Suc (unat e) \<Longrightarrow>
   rangeLoop s e r =
     (if length r + (Suc (unat e) - unat s) \<le> maxIDsSize
      then Inr (r @ map (\<lambda>n. sint (word_of_nat n :: u64)) [unat s..<Suc (unat e)])
      else Inl ErrExceedsMaxSize)"
proof (induction "Suc (unat e) - unat s" arbitrary: s r)
  case 0
  then have "\<not> s \<le> e" by (simp add: word_le_nat_alt)
  with 0 show ?case by (subst rangeLoop.simps) simp
next
  case (Suc k)
  then have le: "s \<le> e" by (simp add: word_le_nat_alt)
  have "unat s < 2 ^ 64 - 1" using Suc.prems(2) Suc.hyps(2) by (simp add: unat_not_max)
  then have sn: "s \<noteq> - 1" by (simp add: unat_not_max)
  have us: "unat (s + 1) = Suc (unat s)" by (rule unat_succ [OF sn])
  show ?case
  proof (cases "length r + 1 > maxIDsSize")
    case True
    with le Suc.hyps(2) show ?thesis by (subst rangeLoop.simps) simp
  next
    case False
    have k: "k = Suc (unat e) - unat (s + 1)" using Suc.hyps(2) us by simp
    have "rangeLoop (s + 1) e (r @ [sint s]) =
      (if length (r @ [sint s]) + (Suc (unat e) - unat (s + 1)) \<le> maxIDsSize
       then Inr ((r @ [sint s]) @ map (\<lambda>n. sint (word_of_nat n :: u64)) [unat (s + 1)..<Suc (unat e)])
       else Inl ErrExceedsMaxSize)"
      using False Suc.prems Suc.hyps(2) us by (intro Suc.hyps(1) [OF k]) auto
    moreover have "[unat s..<Suc (unat e)] = unat s # [Suc (unat s)..<Suc (unat e)]"
      using le by (simp add: upt_conv_Cons word_le_nat_alt)
    ultimately show ?thesis
      using le False Suc.hyps(2) us by (subst rangeLoop.simps) auto
  qed
qed


lemma Split_not_Nil: "Split s sep \<noteq> []"
  by (induction s) (auto split: list.splits)

lemma rangeLoop_Inr_less:
  "rangeLoop s e r = Inr r' \<Longrightarrow> \<not> e \<le> s \<Longrightarrow> length r < length r'"
  using rangeLoop_Inr_length [of s e r r'] by auto

lemma parseID_length:
  "parseID r tok = Inr r' \<Longrightarrow> length r < length r'"
  by (auto simp: parseID_def Let_def split: option.splits sum.splits if_splits dest: rangeLoop_Inr_less)

lemma parseIDsInner_length:
  "parseIDsInner r toks = Inr r' \<Longrightarrow> length r \<le> length r' \<and> (toks \<noteq> [] \<longrightarrow> length r < length r')"
proof (induction toks arbitrary: r)
  case Nil
  then show ?case by simp
next
  case (Cons t toks)
  then show ?case
    by (fastforce split: sum.splits dest: parseID_length)
qed

lemma parseIDsInner_append:
  "parseIDsInner r (xs @ ys) = (case parseIDsInner r xs of Inl e \<Rightarrow> Inl e | Inr r' \<Rightarrow> parseIDsInner r' ys)"
  by (induction xs arbitrary: r) (auto split: sum.splits)

lemma parseIDsOuter_Inner:
  "parseIDsOuter r specs = parseIDsInner r (concat (map (\<lambda>s. Split s (CHR '','')) specs))"
  by (induction specs arbitrary: r) (auto simp: parseIDsInner_append split: sum.splits)

lemma parseIDs_not_Nil:
  "specs \<noteq> [] \<Longrightarrow> parseIDs specs = Inr r \<Longrightarrow> r \<noteq> []"
proof -
  assume a: "specs \<noteq> []" "parseIDs specs = Inr r"
  obtain s rest where s: "specs = s # rest" using a(1) by (cases specs) auto
  have "concat (map (\<lambda>s. Split s (CHR '','')) specs) \<noteq> []"
    using Split_not_Nil [of s] by (simp add: s)
  with a(2) parseIDsInner_length [of "[]" _ r] show ?thesis
    by (auto simp: parseIDs_def parseIDsOuter_Inner)
qed

subsection \<open>Duplicates\<close>

lemma foldl_removeDuplicateStep:
  "foldl removeDuplicateStep (Map.empty, [], []) xs =
     ((\<lambda>k. if k \<in> set xs then Some True else None),
      concat (map (\<lambda>i. if xs ! i \<notin> set (take i xs) then [xs ! i] else []) [0..<length xs]),
      concat (map (\<lambda>i. if xs ! i \<in> set (take i xs) then [xs ! i] else []) [0..<length xs]))"
proof (induction xs rule: rev_induct)
  case Nil
  then show ?case by simp
next
  case (snoc x xs)
  define f where "f = (\<lambda>i. if (xs @ [x]) ! i \<notin> set (take i (xs @ [x])) then [(xs @ [x]) ! i] else [])"
  define g where "g = (\<lambda>i. if (xs @ [x]) ! i \<in> set (take i (xs @ [x])) then [(xs @ [x]) ! i] else [])"
  define f' where "f' = (\<lambda>i. if xs ! i \<notin> set (take i xs) then [xs ! i] else [])"
  define g' where "g' = (\<lambda>i. if xs ! i \<in> set (take i xs) then [xs ! i] else [])"
  have f: "map f [0..<length xs] = map f' [0..<length xs]"
    by (rule map_cong) (simp_all add: f_def f'_def nth_append)
  have g: "map g [0..<length xs] = map g' [0..<length xs]"
    by (rule map_cong) (simp_all add: g_def g'_def nth_append)
  have fl: "f (length xs) = (if x \<notin> set xs then [x] else [])"
    by (simp add: f_def)
  have gl: "g (length xs) = (if x \<in> set xs then [x] else [])"
    by (simp add: g_def)
  have F: "concat (map f [0..<length (xs @ [x])]) = concat (map f' [0..<length xs]) @ (if x \<notin> set xs then [x] else [])"
    by (simp add: f fl)
  have G: "concat (map g [0..<length (xs @ [x])]) = concat (map g' [0..<length xs]) @ (if x \<in> set xs then [x] else [])"
    by (simp add: g gl)
  have "foldl removeDuplicateStep (Map.empty, [], []) (xs @ [x])
      = removeDuplicateStep ((\<lambda>k. if k \<in> set xs then Some True else None),
           concat (map f' [0..<length xs]), concat (map g' [0..<length xs])) x"
    using snoc.IH by (simp add: f'_def g'_def)
  also have "\<dots> = ((\<lambda>k. if k \<in> set (xs @ [x]) then Some True else None),
        concat (map f [0..<length (xs @ [x])]), concat (map g [0..<length (xs @ [x])]))"
    unfolding F G by (auto simp: removeDuplicateStep_def fun_eq_iff)
  finally show ?case unfolding f_def g_def .
qed

lemma removeDuplicateValues_eq:
  "removeDuplicateValues xs = (firstOccurrences xs, laterOccurrences xs)"
  by (simp add: removeDuplicateValues_def foldl_removeDuplicateStep firstOccurrences_def
      laterOccurrences_def)

lemma removeDuplicateValues_snoc:
  "removeDuplicateValues (xs @ [x]) =
     (case removeDuplicateValues xs of
        (r, d) \<Rightarrow> if x \<in> set xs then (r, d @ [x]) else (r @ [x], d))"
proof -
  have "foldl removeDuplicateStep (Map.empty, [], []) (xs @ [x]) =
        removeDuplicateStep (foldl removeDuplicateStep (Map.empty, [], []) xs) x"
    by simp
  then show ?thesis
    unfolding removeDuplicateValues_def
    by (simp add: foldl_removeDuplicateStep [of xs] removeDuplicateStep_def)
qed

lemma firstOccurrences_snoc:
  "firstOccurrences (xs @ [x]) = firstOccurrences xs @ (if x \<in> set xs then [] else [x])"
  and laterOccurrences_snoc:
  "laterOccurrences (xs @ [x]) = laterOccurrences xs @ (if x \<in> set xs then [x] else [])"
  using removeDuplicateValues_snoc [of xs x]
  by (auto simp: removeDuplicateValues_eq)

lemma occurrences_Nil: "firstOccurrences [] = []" "laterOccurrences [] = []"
  by (simp_all add: firstOccurrences_def laterOccurrences_def)

lemma set_firstOccurrences: "set (firstOccurrences xs) = set xs"
  by (induction xs rule: rev_induct) (auto simp: firstOccurrences_snoc occurrences_Nil)

lemma distinct_firstOccurrences: "distinct (firstOccurrences xs)"
  by (induction xs rule: rev_induct)
     (auto simp: firstOccurrences_snoc set_firstOccurrences occurrences_Nil)

lemma length_occurrences:
  "length (firstOccurrences xs) + length (laterOccurrences xs) = length xs"
  by (induction xs rule: rev_induct)
     (auto simp: firstOccurrences_snoc laterOccurrences_snoc occurrences_Nil)

lemmas parser_defs =
  parseIDs_def parseID_def TrimSpace_def spaceRunes_def hasPrefix_def Sscanf_def scanUint_def
  ParseUint_def Atoi_def isDigit_def digitVal_def maxUint64_def maxIDsSize_def

lemma parseIDs_example: "parseIDs [''0,1,2'', ''1,3''] = Inr [0, 1, 2, 1, 3]"
  by (simp add: parser_defs)

text \<open>
  C6. When the parse of the specification list succeeds with the expanded list \<open>all\<close>,
  parseIntRanges succeeds too (duplicates are not errors) and returns the entries of \<open>all\<close>
  that occur for the first time, in the order of \<open>all\<close>: they are distinct and they are
  all the values of \<open>all\<close>. The side list of removeDuplicateValues holds the other
  occurrences, in order, and each of them is logged as a warning.
\<close>

theorem parseIntRanges_distinct_first_encountered:
  "parseIDs ranges = Inr all \<Longrightarrow>
     parseIntRanges ranges =
       Inr (firstOccurrences all, map WarnDuplicated (laterOccurrences all)) \<and>
     removeDuplicateValues all = (firstOccurrences all, laterOccurrences all) \<and>
     distinct (firstOccurrences all) \<and>
     set (firstOccurrences all) = set all \<and>
     length (firstOccurrences all) + length (laterOccurrences all) = length all"
  by (simp add: parseIntRanges_def removeDuplicateValues_eq distinct_firstOccurrences
      set_firstOccurrences length_occurrences)

theorem parseIntRanges_distinct_first_encountered_witness:
  "parseIDs [''0,1,2'', ''1,3''] = Inr [0, 1, 2, 1, 3] \<and>
   parseIntRanges [''0,1,2'', ''1,3''] = Inr ([0, 1, 2, 3], [WarnDuplicated 1]) \<and>
   removeDuplicateValues [0, 1, 2, 1, 3] = ([0, 1, 2, 3], [1])"
  using parseIntRanges_distinct_first_encountered [OF parseIDs_example]
  by (simp add: parseIDs_example firstOccurrences_def laterOccurrences_def)

subsection \<open>parseCores\<close>

lemma parseIntRanges_not_Nil:
  "cs \<noteq> [] \<Longrightarrow> parseIntRanges cs = Inr (ids, logs) \<Longrightarrow> ids \<noteq> []"
proof -
  assume a: "cs \<noteq> []" "parseIntRanges cs = Inr (ids, logs)"
  then obtain all where all: "parseIDs cs = Inr all" and ids: "ids = firstOccurrences all"
    by (auto simp: parseIntRanges_def removeDuplicateValues_eq split: sum.splits)
  from parseIDs_not_Nil [OF a(1) all] have "set all \<noteq> {}" by simp
  then show ?thesis using set_firstOccurrences [of all] ids by auto
qed

text \<open>
  C7. parseCores has no error result. For a nil specification, for an empty list and for a
  list on which parseIntRanges fails it returns nil (all cores) and writes one log line;
  for a non-empty list that parses it returns the parsed IDs, which are never an empty
  (nil) slice. So nil is returned in exactly the first three cases.
\<close>

theorem parseCores_never_fails:
  "(cores = None \<longrightarrow> parseCores cores = (None, [DebugAllCores])) \<and>
   (cores = Some [] \<longrightarrow> parseCores cores = (None, [WarnEmptyCores])) \<and>
   (\<forall>cs e. cores = Some cs \<and> parseIntRanges cs = Inl e \<longrightarrow>
      parseCores cores = (None, [WarnParseError e])) \<and>
   (\<forall>cs ids logs. cores = Some cs \<and> cs \<noteq> [] \<and> parseIntRanges cs = Inr (ids, logs) \<longrightarrow>
      parseCores cores = (Some ids, logs) \<and> ids \<noteq> []) \<and>
   (fst (parseCores cores) = None \<longleftrightarrow>
      cores = None \<or> cores = Some [] \<or> (\<exists>cs e. cores = Some cs \<and> parseIntRanges cs = Inl e))"
proof -
  have nil: "parseIntRanges [] = Inr ([], [])"
    by (simp add: parseIntRanges_def parseIDs_def removeDuplicateValues_def)
  have ok: "parseCores (Some cs) = (Some ids, logs) \<and> ids \<noteq> []"
    if "cs \<noteq> []" "parseIntRanges cs = Inr (ids, logs)" for cs ids logs
    using that parseIntRanges_not_Nil [OF that] by (simp add: parseCores_def sliceOf_def)
  show ?thesis
  proof (cases cores)
    case None
    then show ?thesis by (simp add: parseCores_def)
  next
    case (Some cs)
    show ?thesis
    proof (cases "cs = []")
      case True
      with Some show ?thesis by (simp add: parseCores_def nil)
    next
      case False
      show ?thesis
      proof (cases "parseIntRanges cs")
        case (Inl e)
        with Some False show ?thesis by (simp add: parseCores_def)
      next
        case (Inr p)
        obtain ids logs where p: "p = (ids, logs)" by (cases p)
        from ok [OF False Inr [unfolded p]] Some False Inr p show ?thesis by simp
      qed
    qed
  qed
qed

lemma parseIntRanges_example:
  "parseIntRanges [''0,1,2'', ''1,3''] = Inr ([0, 1, 2, 3], [WarnDuplicated 1])"
  by (simp add: parseIntRanges_def parseIDs_example removeDuplicateValues_eq
      firstOccurrences_def laterOccurrences_def)

lemma parseIntRanges_example_error:
  "parseIntRanges [''0,1,2'', ''x''] = Inl (ErrWrongFormat ''x'' ErrSyntax)"
  by (simp add: parseIntRanges_def parser_defs)

theorem parseCores_never_fails_witness:
  "parseCores None = (None, [DebugAllCores]) \<and>
   parseCores (Some []) = (None, [WarnEmptyCores]) \<and>
   parseCores (Some [''0,1,2'', ''x'']) = (None, [WarnParseError (ErrWrongFormat ''x'' ErrSyntax)]) \<and>
   parseCores (Some [''0,1,2'', ''1,3'']) = (Some [0, 1, 2, 3], [WarnDuplicated 1])"
  using parseCores_never_fails [of None]
    parseCores_never_fails [of "Some []"]
    parseCores_never_fails [of "Some [''0,1,2'', ''x'']"]
    parseCores_never_fails [of "Some [''0,1,2'', ''1,3'']"]
    parseIntRanges_example_error parseIntRanges_example
  by simp

subsection \<open>Tokens on their own and in sequence\<close>

lemma maxIDsSize_pos: "0 < maxIDsSize" by (simp add: maxIDsSize_def)

lemma rangeLoop_acc:
  assumes "length acc \<le> maxIDsSize"
  shows "rangeLoop s e acc =
     (case rangeLoop s e [] of
        Inl x \<Rightarrow> Inl x
      | Inr r \<Rightarrow> if length acc + length r \<le> maxIDsSize then Inr (acc @ r)
                 else Inl ErrExceedsMaxSize)"
proof (cases "e = - 1")
  case True
  then show ?thesis using assms by (simp add: rangeLoop_wrap)
next
  case False
  show ?thesis
  proof (cases "unat s \<le> Suc (unat e)")
    case True
    show ?thesis
      using assms by (auto simp add: rangeLoop_exact [OF _ False True])
  next
    case False
    then have "\<not> s \<le> e" by (simp add: word_le_nat_alt)
    then have "rangeLoop s e acc = Inr acc" "rangeLoop s e [] = Inr []"
      by (subst rangeLoop.simps, simp)+
    then show ?thesis using assms by simp
  qed
qed

lemma parseID_acc:
  assumes "length acc \<le> maxIDsSize"
  shows "parseID acc tok =
     (case parseID [] tok of
        Inl e \<Rightarrow> Inl e
      | Inr r \<Rightarrow> if length acc + length r \<le> maxIDsSize then Inr (acc @ r)
                 else Inl ErrExceedsMaxSize)"
  using maxIDsSize_pos
  by (auto simp: parseID_def Let_def rangeLoop_acc [OF assms] split: option.splits sum.splits)

lemma parseID_Inr_bound:
  "length acc \<le> maxIDsSize \<Longrightarrow> parseID acc tok = Inr r \<Longrightarrow> length r \<le> maxIDsSize"
  using parseID_acc [of acc tok] by (auto split: sum.splits if_splits)

lemma parseIDsInner_expansions:
  "list_all2 (\<lambda>t r. parseID [] t = Inr r) toks rs \<Longrightarrow> length acc \<le> maxIDsSize \<Longrightarrow>
   parseIDsInner acc toks =
     (if length acc + length (concat rs) \<le> maxIDsSize then Inr (acc @ concat rs)
      else Inl ErrExceedsMaxSize)"
proof (induction arbitrary: acc rule: list_all2_induct)
  case Nil
  then show ?case by simp
next
  case (Cons t toks r rs)
  show ?case
  proof (cases "length acc + length r \<le> maxIDsSize")
    case True
    then have "parseID acc t = Inr (acc @ r)"
      using Cons.hyps(1) Cons.prems parseID_acc [of acc t] by simp
    moreover have "length (acc @ r) \<le> maxIDsSize" using True by simp
    ultimately show ?thesis using Cons.IH [of "acc @ r"] by (simp add: add.assoc)
  next
    case False
    then have "parseID acc t = Inl ErrExceedsMaxSize"
      using Cons.hyps(1) Cons.prems parseID_acc [of acc t] by simp
    then show ?thesis using False by simp
  qed
qed

lemma parseIDsInner_Inr_expansions:
  "parseIDsInner acc toks = Inr res \<Longrightarrow> length acc \<le> maxIDsSize \<Longrightarrow>
   \<exists>rs. list_all2 (\<lambda>t r. parseID [] t = Inr r) toks rs \<and> res = acc @ concat rs \<and>
        length res \<le> maxIDsSize"
proof (induction toks arbitrary: acc)
  case Nil
  then show ?case by simp
next
  case (Cons t toks)
  from Cons.prems obtain r' where r': "parseID acc t = Inr r'" "parseIDsInner r' toks = Inr res"
    by (auto split: sum.splits)
  from r'(1) Cons.prems(2) parseID_acc [of acc t]
  obtain r where r: "parseID [] t = Inr r" "r' = acc @ r"
    "length acc + length r \<le> maxIDsSize"
    by (auto split: sum.splits if_splits)
  from Cons.IH [OF r'(2)] r obtain rs where
    "list_all2 (\<lambda>t r. parseID [] t = Inr r) toks rs" "res = r' @ concat rs" "length res \<le> maxIDsSize"
    by auto
  then show ?case using r by (intro exI [of _ "r # rs"]) simp
qed

lemma parseIDs_tokensOf: "parseIDs specs = parseIDsInner [] (tokensOf specs)"
  by (simp add: parseIDs_def parseIDsOuter_Inner tokensOf_def)

lemma parseIDsInner_Inl:
  "parseID [] tok = Inl e \<Longrightarrow> tok \<in> set toks \<Longrightarrow> length acc \<le> maxIDsSize \<Longrightarrow>
   \<exists>e'. parseIDsInner acc toks = Inl e'"
proof (induction toks arbitrary: acc)
  case Nil
  then show ?case by simp
next
  case (Cons t toks)
  show ?case
  proof (cases "parseID acc t")
    case (Inl a)
    then show ?thesis by simp
  next
    case (Inr r')
    have b: "length r' \<le> maxIDsSize" by (rule parseID_Inr_bound [OF Cons.prems(3) Inr])
    have "tok \<noteq> t"
      using Cons.prems(1,3) Inr parseID_acc [of acc t] by auto
    with Cons.prems(2) have "tok \<in> set toks" by simp
    from Cons.IH [OF Cons.prems(1) this b] Inr show ?thesis by simp
  qed
qed

lemma parseIDsInner_first_error:
  "parseIDsInner [] pre = Inr r1 \<Longrightarrow> parseID [] tok = Inl e \<Longrightarrow> e \<noteq> ErrExceedsMaxSize \<Longrightarrow>
   parseIDsInner [] (pre @ tok # post) = Inl e"
proof -
  assume a: "parseIDsInner [] pre = Inr r1" "parseID [] tok = Inl e" "e \<noteq> ErrExceedsMaxSize"
  from parseIDsInner_Inr_expansions [OF a(1)] have "length r1 \<le> maxIDsSize" by auto
  with a(2) parseID_acc [of r1 tok] have "parseID r1 tok = Inl e" by simp
  with a(1) show ?thesis by (simp add: parseIDsInner_append)
qed



lemma foldl_digits_ge: "n \<le> foldl (\<lambda>n c. n * 10 + digitVal c) n ds"
proof (induction ds arbitrary: n)
  case Nil
  then show ?case by simp
next
  case (Cons c ds)
  have "n \<le> n * 10 + digitVal c" by simp
  also have "\<dots> \<le> foldl (\<lambda>n c. n * 10 + digitVal c) (n * 10 + digitVal c) ds" by (rule Cons.IH)
  finally show ?case by simp
qed

lemma parseUintLoop_digits:
  "\<forall>c\<in>set ds. isDigit c \<Longrightarrow> foldl (\<lambda>n c. n * 10 + digitVal c) n ds \<le> maxUint64 \<Longrightarrow>
   parseUintLoop n ds = Inr (foldl (\<lambda>n c. n * 10 + digitVal c) n ds)"
proof (induction ds arbitrary: n)
  case Nil
  then show ?case by simp
next
  case (Cons c ds)
  have le: "n * 10 + digitVal c \<le> maxUint64"
    using foldl_digits_ge [of "n * 10 + digitVal c" ds] Cons.prems(2) by simp
  then have "n < maxUint64 div 10 + 1" by (simp add: maxUint64_def)
  with le Cons show ?case by simp
qed

lemma parseUintLoop_Inr:
  "parseUintLoop n ds = Inr m \<Longrightarrow>
   (\<forall>c\<in>set ds. isDigit c) \<and> m = foldl (\<lambda>n c. n * 10 + digitVal c) n ds \<and>
   (n \<le> maxUint64 \<longrightarrow> m \<le> maxUint64)"
  by (induction ds arbitrary: n) (auto split: if_splits)

lemma hasPrefix_hd: "hasPrefix (c # cs) r \<Longrightarrow> r \<noteq> [] \<Longrightarrow> hd r = c"
  by (cases r) (auto simp: hasPrefix_def)

lemma spaceRunes_first:
  "\<forall>r\<in>set spaceRunes. r \<noteq> [] \<and> \<not> isDigit (hd r)"
  "\<forall>r\<in>set (map rev spaceRunes). r \<noteq> [] \<and> \<not> isDigit (hd r)"
  by (simp_all add: spaceRunes_def isDigit_def)

lemma not_space_digit:
  "isDigit c \<Longrightarrow> filter (hasPrefix (c # cs)) spaceRunes = []"
  "isDigit c \<Longrightarrow> filter (hasPrefix (c # cs)) (map rev spaceRunes) = []"
  using spaceRunes_first hasPrefix_hd [of c cs]
  by (auto simp only: filter_empty_conv)

lemma not_digit_newline: "\<not> isDigit (CHR 0x0A)"
  by (simp add: isDigit_def)

lemma SkipSpace_digit: "isDigit c \<Longrightarrow> SkipSpace (c # cs) = Some (c # cs)"
  using not_digit_newline by (auto simp: not_space_digit)

lemma dropRunes_digit:
  "isDigit c \<Longrightarrow> dropRunes spaceRunes (c # cs) = c # cs"
  "isDigit c \<Longrightarrow> dropRunes (map rev spaceRunes) (c # cs) = c # cs"
  by (simp_all add: not_space_digit)

lemma TrimSpace_digits:
  assumes "s \<noteq> []" "isDigit (hd s)" "isDigit (last s)"
  shows "TrimSpace s = s"
proof -
  obtain c cs where s: "s = c # cs" using assms(1) by (cases s) auto
  have 1: "dropRunes spaceRunes s = s"
    using assms(2) unfolding s by (simp only: dropRunes_digit list.sel)
  obtain d ds where r: "rev s = d # ds" using assms(1) by (cases "rev s") auto
  have "hd (rev s) = last s" using assms(1) by (simp add: hd_rev)
  then have "isDigit d" using assms(3) r by simp
  then have 2: "dropRunes (map rev spaceRunes) (rev s) = rev s"
    unfolding r by (simp only: dropRunes_digit)
  show ?thesis
    unfolding TrimSpace_def 1 2 by simp
qed

lemma scanUint_digits:
  assumes "ds \<noteq> []" "\<forall>c\<in>set ds. isDigit c" "digitsVal ds \<le> maxUint64"
    and "rest = [] \<or> \<not> isDigit (hd rest)"
  shows "scanUint (ds @ rest) = Some (word_of_nat (digitsVal ds), rest)"
proof -
  obtain c cs where ds: "ds = c # cs" using assms(1) by (cases ds) auto
  have sk: "SkipSpace (ds @ rest) = Some (ds @ rest)"
    using assms(2) by (simp add: ds SkipSpace_digit del: SkipSpace.simps)
  have tw: "takeWhile isDigit (ds @ rest) = ds"
    using assms(2,4) by (cases rest) (simp_all add: takeWhile_append2 takeWhile_eq_all_conv [THEN iffD2])
  have dw: "dropWhile isDigit (ds @ rest) = rest"
    using assms(2,4) by (cases rest) (simp_all add: dropWhile_append2)
  have pu: "ParseUint ds = Inr (digitsVal ds)"
    using assms(1,2,3) unfolding ParseUint_def digitsVal_def
    by (simp add: parseUintLoop_digits)
  show ?thesis
    unfolding scanUint_def sk by (simp add: Let_def tw dw pu assms(1))
qed

lemma not_digit_dash: "\<not> isDigit (CHR ''-'')"
  by (simp add: isDigit_def)

lemma Sscanf_range_token:
  assumes "da \<noteq> []" "\<forall>c\<in>set da. isDigit c" "digitsVal da \<le> maxUint64"
    and "db \<noteq> []" "\<forall>c\<in>set db. isDigit c" "digitsVal db \<le> maxUint64"
  shows "Sscanf (da @ ''-'' @ db) = Some (word_of_nat (digitsVal da), word_of_nat (digitsVal db))"
proof -
  obtain c cs where da: "da = c # cs" using assms(1) by (cases da) auto
  obtain d ds where db: "db = d # ds" using assms(4) by (cases db) auto
  have sk: "SkipSpace (da @ CHR ''-'' # db) = Some (da @ CHR ''-'' # db)"
    using assms(2) by (simp add: da SkipSpace_digit del: SkipSpace.simps)
  have s1: "scanUint (da @ CHR ''-'' # db) = Some (word_of_nat (digitsVal da), CHR ''-'' # db)"
    by (rule scanUint_digits [OF assms(1,2,3)]) (simp add: not_digit_dash)
  have sk2: "SkipSpace db = Some db"
    using assms(5) by (simp add: db SkipSpace_digit del: SkipSpace.simps)
  have s2: "scanUint db = Some (word_of_nat (digitsVal db), [])"
    using scanUint_digits [OF assms(4,5,6), of "[]"] by simp
  show ?thesis
    unfolding Sscanf_def by (simp add: sk s1 sk2 s2 del: SkipSpace.simps)
qed


lemma parseID_alone:
  "parseID [] tok =
    (case Sscanf (TrimSpace tok) of
       Some (s, e) \<Rightarrow>
         if s \<ge> e then Inl (ErrEqualOrGreater s e)
         else if e \<noteq> - 1 \<and> unat e - unat s < maxIDsSize
              then Inr (map (\<lambda>n. sint (word_of_nat n :: u64)) [unat s..<Suc (unat e)])
              else Inl ErrExceedsMaxSize
     | None \<Rightarrow>
        (case Atoi (TrimSpace tok) of
           Inl err \<Rightarrow> Inl (ErrWrongFormat (TrimSpace tok) err)
         | Inr num \<Rightarrow> Inr [num]))"
proof (cases "Sscanf (TrimSpace tok)")
  case None
  then show ?thesis using maxIDsSize_pos by (simp add: parseID_def split: sum.splits)
next
  case (Some p)
  obtain s e where p: "p = (s, e)" by (cases p)
  show ?thesis
  proof (cases "s \<ge> e")
    case True
    then show ?thesis by (simp add: parseID_def Some p)
  next
    case False
    then have le: "unat s \<le> Suc (unat e)" "unat s \<le> unat e" by (simp_all add: word_le_nat_alt)
    show ?thesis
    proof (cases "e = - 1")
      case True
      then show ?thesis using False by (simp add: parseID_def Some p rangeLoop_wrap)
    next
      case ne: False
      have "rangeLoop s e [] =
        (if Suc (unat e) - unat s \<le> maxIDsSize
         then Inr (map (\<lambda>n. sint (word_of_nat n :: u64)) [unat s..<Suc (unat e)])
         else Inl ErrExceedsMaxSize)"
        using rangeLoop_exact [of "[]" e s, OF _ ne le(1)] by simp
      moreover have "Suc (unat e) - unat s \<le> maxIDsSize \<longleftrightarrow> unat e - unat s < maxIDsSize"
        using le(2) by arith
      ultimately show ?thesis using False ne by (simp add: parseID_def Some p)
    qed
  qed
qed

lemma ParseUint_Inr:
  "ParseUint t = Inr un \<Longrightarrow> t \<noteq> [] \<and> (\<forall>c\<in>set t. isDigit c) \<and> un = digitsVal t"
  using parseUintLoop_Inr [of 0 t un]
  by (auto simp: ParseUint_def digitsVal_def split: if_splits)

lemma Atoi_Inr:
  "Atoi s = Inr n \<Longrightarrow>
   \<exists>ds. ds \<noteq> [] \<and> (\<forall>c\<in>set ds. isDigit c) \<and>
     ((s = ds \<or> s = CHR ''+'' # ds) \<and> n = int (digitsVal ds) \<and> digitsVal ds < 2 ^ 63 \<or>
      s = CHR ''-'' # ds \<and> n = - int (digitsVal ds) \<and> digitsVal ds \<le> 2 ^ 63)"
proof -
  assume a: "Atoi s = Inr n"
  then obtain c cs where s: "s = c # cs" by (cases s) (auto simp: Atoi_def)
  consider (plus) "c = CHR ''+''" | (minus) "c = CHR ''-''"
    | (other) "c \<noteq> CHR ''+''" "c \<noteq> CHR ''-''" by auto
  then show ?thesis
  proof cases
    case plus
    with a s obtain un where "ParseUint cs = Inr un" "un < 2 ^ 63" "n = int un"
      by (auto simp: Atoi_def Let_def split: sum.splits numError.splits if_splits)
    then show ?thesis using ParseUint_Inr [of cs un] s plus
      by (intro exI [of _ cs]) auto
  next
    case minus
    with a s obtain un where "ParseUint cs = Inr un" "un \<le> 2 ^ 63" "n = - int un"
      by (auto simp: Atoi_def Let_def split: sum.splits numError.splits if_splits)
    then show ?thesis using ParseUint_Inr [of cs un] s minus
      by (intro exI [of _ cs]) auto
  next
    case other
    with a s obtain un where "ParseUint s = Inr un" "un < 2 ^ 63" "n = int un"
      by (auto simp: Atoi_def Let_def split: sum.splits numError.splits if_splits)
    then show ?thesis using ParseUint_Inr [of s un]
      by (intro exI [of _ s]) auto
  qed
qed

lemma unat_word_of_nat64: "n < 2 ^ 64 \<Longrightarrow> unat (word_of_nat n :: u64) = n"
  by (simp add: unat_of_nat)

lemma map_sint_small:
  "b < 2 ^ 63 \<Longrightarrow> map (\<lambda>n. sint (word_of_nat n :: u64)) [a..<Suc b] = map int [a..<Suc b]"
  by (rule map_cong) (auto simp: sint_small)

text \<open>
  C3 (as amended). A token that, once trimmed, reads \<open>da-db\<close> with decimal digit strings
  for the numbers \<open>a\<close> and \<open>b\<close> (both below \<open>2^64\<close>, so that the scan does not
  overflow). If \<open>a < b\<close> and \<open>b\<close> is in the range of \<open>int\<close>: when the tokens before
  and after it parse and the whole expansion stays within maxIDsSize, the parse succeeds and
  the result is the IDs of the earlier tokens, then every integer from \<open>a\<close> to \<open>b\<close> in
  increasing order, then the IDs of the later tokens; and whenever the parse succeeds the
  result has this form. If \<open>a \<ge> b\<close> the whole parse fails: no result is returned, and the
  error is the one of this token unless an earlier token has failed already.
\<close>

theorem parseIDs_range_token:
  assumes da: "da \<noteq> []" "\<forall>c\<in>set da. isDigit c"
    and db: "db \<noteq> []" "\<forall>c\<in>set db. isDigit c"
    and tok: "TrimSpace tok = da @ ''-'' @ db"
    and toks: "tokensOf specs = pre @ tok # post"
    and a: "digitsVal da = a" "a < 2 ^ 64"
    and b: "digitsVal db = b" "b < 2 ^ 64"
  shows
   "(a < b \<and> b < 2 ^ 63 \<longrightarrow>
       (\<forall>r1 r2. parseIDsInner [] pre = Inr r1 \<and> parseIDsInner [] post = Inr r2 \<and>
                length r1 + (b - a + 1) + length r2 \<le> maxIDsSize \<longrightarrow>
                parseIDs specs = Inr (r1 @ map int [a..<Suc b] @ r2)) \<and>
       (\<forall>result. parseIDs specs = Inr result \<longrightarrow>
          (\<exists>r1 r2. parseIDsInner [] pre = Inr r1 \<and> parseIDsInner [] post = Inr r2 \<and>
                   result = r1 @ map int [a..<Suc b] @ r2))) \<and>
    (b \<le> a \<longrightarrow>
       (\<exists>e. parseIDs specs = Inl e) \<and>
       (\<forall>r1. parseIDsInner [] pre = Inr r1 \<longrightarrow>
          parseIDs specs = Inl (ErrEqualOrGreater (word_of_nat a) (word_of_nat b))))"
proof -
  let ?wa = "word_of_nat a :: u64" and ?wb = "word_of_nat b :: u64"
  have ua: "unat ?wa = a" and ub: "unat ?wb = b"
    using a(2) b(2) by (simp_all add: unat_word_of_nat64)
  have sc: "Sscanf (TrimSpace tok) = Some (?wa, ?wb)"
    unfolding tok using Sscanf_range_token [OF da _ db] a b by (simp add: maxUint64_def)
  have ord: "?wb \<le> ?wa \<longleftrightarrow> b \<le> a" by (simp add: word_le_nat_alt ua ub)
  have P: "parseIDs specs = parseIDsInner [] (pre @ tok # post)"
    by (simp add: parseIDs_tokensOf toks)
  have up: "a < b \<and> b < 2 ^ 63 \<longrightarrow>
       (\<forall>r1 r2. parseIDsInner [] pre = Inr r1 \<and> parseIDsInner [] post = Inr r2 \<and>
                length r1 + (b - a + 1) + length r2 \<le> maxIDsSize \<longrightarrow>
                parseIDs specs = Inr (r1 @ map int [a..<Suc b] @ r2)) \<and>
       (\<forall>result. parseIDs specs = Inr result \<longrightarrow>
          (\<exists>r1 r2. parseIDsInner [] pre = Inr r1 \<and> parseIDsInner [] post = Inr r2 \<and>
                   result = r1 @ map int [a..<Suc b] @ r2))"
  proof (intro impI conjI allI)
    fix r1 r2
    assume ab: "a < b \<and> b < 2 ^ 63"
      and h: "parseIDsInner [] pre = Inr r1 \<and> parseIDsInner [] post = Inr r2 \<and>
                length r1 + (b - a + 1) + length r2 \<le> maxIDsSize"
    have nm: "?wb \<noteq> - 1" using ab ub by (simp add: unat_not_max)
    define R where "R = map int [a..<Suc b]"
    have lenR: "length R = b - a + 1" using ab by (simp add: R_def Suc_diff_le)
    from h have hb: "length r1 + (b - a + 1) + length r2 \<le> maxIDsSize" by blast
    have bd: "b - a < maxIDsSize" using hb by arith
    have alone: "parseID [] tok = Inr R"
      unfolding R_def
      using ab nm bd by (simp add: parseID_alone sc ord ua ub map_sint_small del: upt_Suc)
    have r1: "length r1 \<le> maxIDsSize" using hb by simp
    have c1: "length r1 + length R \<le> maxIDsSize" using hb lenR by linarith
    have c2: "length (r1 @ R) + length r2 \<le> maxIDsSize" using hb lenR by simp
    have 1: "parseID r1 tok = Inr (r1 @ R)"
      using parseID_acc [OF r1, of tok] alone c1 by simp
    from h parseIDsInner_Inr_expansions [of "[]" post r2]
    obtain rs2 where rs2: "list_all2 (\<lambda>t r. parseID [] t = Inr r) post rs2" "r2 = concat rs2"
      by auto
    have 2: "parseIDsInner (r1 @ R) post = Inr ((r1 @ R) @ r2)"
      using parseIDsInner_expansions [OF rs2(1), of "r1 @ R"] c1 c2 rs2(2)
      by simp
    show "parseIDs specs = Inr (r1 @ map int [a..<Suc b] @ r2)"
      using h 1 2 unfolding R_def [symmetric] by (simp add: P parseIDsInner_append)
  next
    fix result
    assume ab: "a < b \<and> b < 2 ^ 63" and res: "parseIDs specs = Inr result"
    from res parseIDsInner_Inr_expansions [of "[]" "pre @ tok # post" result]
    obtain rs where rs: "list_all2 (\<lambda>t r. parseID [] t = Inr r) (pre @ tok # post) rs"
      "result = concat rs" "length result \<le> maxIDsSize"
      by (auto simp: P)
    from rs(1) obtain rs1 r rs2 where sp: "rs = rs1 @ r # rs2"
      "list_all2 (\<lambda>t r. parseID [] t = Inr r) pre rs1" "parseID [] tok = Inr r"
      "list_all2 (\<lambda>t r. parseID [] t = Inr r) post rs2"
      by (auto simp: list_all2_append1 list_all2_Cons1)
    have nm: "?wb \<noteq> - 1" using ab ub by (simp add: unat_not_max)
    have r: "r = map int [a..<Suc b]"
      using sp(3) ab nm
      by (simp add: parseID_alone sc ord ua ub map_sint_small del: upt_Suc split: if_splits)
    have l: "length (concat rs1) \<le> maxIDsSize" "length (concat rs2) \<le> maxIDsSize"
      using rs(2,3) sp(1) by simp_all
    have "parseIDsInner [] pre = Inr (concat rs1)" "parseIDsInner [] post = Inr (concat rs2)"
      using parseIDsInner_expansions [OF sp(2), of "[]"] parseIDsInner_expansions [OF sp(4), of "[]"] l
      by simp_all
    then show "\<exists>r1 r2. parseIDsInner [] pre = Inr r1 \<and> parseIDsInner [] post = Inr r2 \<and>
                   result = r1 @ map int [a..<Suc b] @ r2"
      using rs(2) sp(1) r by simp
  qed
  have down: "b \<le> a \<longrightarrow>
       (\<exists>e. parseIDs specs = Inl e) \<and>
       (\<forall>r1. parseIDsInner [] pre = Inr r1 \<longrightarrow>
          parseIDs specs = Inl (ErrEqualOrGreater ?wa ?wb))"
  proof (intro impI conjI allI)
    assume ba: "b \<le> a"
    then have alone: "parseID [] tok = Inl (ErrEqualOrGreater ?wa ?wb)"
      by (simp add: parseID_alone sc ord)
    show "\<exists>e. parseIDs specs = Inl e"
      unfolding P by (rule parseIDsInner_Inl [OF alone]) simp_all
    fix r1 assume "parseIDsInner [] pre = Inr r1"
    then show "parseIDs specs = Inl (ErrEqualOrGreater ?wa ?wb)"
      unfolding P by (rule parseIDsInner_first_error [OF _ alone]) simp
  qed
  from up down show ?thesis by blast
qed


subsection \<open>Range tokens at concrete inputs\<close>

lemmas scan_defs =
  TrimSpace_def spaceRunes_def hasPrefix_def Sscanf_def scanUint_def
  ParseUint_def Atoi_def isDigit_def digitVal_def maxUint64_def

theorem parseIDs_range_token_witness:
  "parseIDs [''0, 2-5'', ''7''] = Inr [0, 2, 3, 4, 5, 7] \<and>
   parseIDs [''0'', ''5-5,1''] = Inl (ErrEqualOrGreater 5 5)"
proof -
  have d: "''2'' \<noteq> []" "\<forall>c\<in>set ''2''. isDigit c" "''5'' \<noteq> []" "\<forall>c\<in>set ''5''. isDigit c"
    by (simp_all add: isDigit_def)
  have v: "digitsVal ''2'' = 2" "(2::nat) < 2 ^ 64" "digitsVal ''5'' = 5" "(5::nat) < 2 ^ 64"
    by (simp_all add: digitsVal_def digitVal_def)
  have t1: "TrimSpace '' 2-5'' = ''2'' @ ''-'' @ ''5''"
    by (simp add: scan_defs)
  have k1: "tokensOf [''0, 2-5'', ''7''] = [''0''] @ '' 2-5'' # [''7'']"
    by (simp add: tokensOf_def)
  have p: "parseIDsInner [] [''0''] = Inr [0]" "parseIDsInner [] [''7''] = Inr [7]"
    by (simp_all add: parser_defs)
  have c: "(2::nat) < 5 \<and> (5::nat) < 2 ^ 63" by simp
  have l: "length [0::int] + (5 - 2 + 1) + length [7::int] \<le> maxIDsSize"
    by (simp add: maxIDsSize_def)
  have 1: "parseIDs [''0, 2-5'', ''7''] = Inr ([0] @ map int [2..<Suc 5] @ [7])"
    using parseIDs_range_token [OF d(1,2) d(3,4) t1 k1 v] c p l by blast
  have t2: "TrimSpace ''5-5'' = ''5'' @ ''-'' @ ''5''"
    by (simp add: scan_defs)
  have k2: "tokensOf [''0'', ''5-5,1''] = [''0''] @ ''5-5'' # [''1'']"
    by (simp add: tokensOf_def)
  have 2: "parseIDs [''0'', ''5-5,1''] = Inl (ErrEqualOrGreater (word_of_nat 5) (word_of_nat 5))"
    using parseIDs_range_token [OF d(3,4) d(3,4) t2 k2 v(3,4) v(3,4)] p(1) by blast
  have u: "[2..<Suc 5] = [2, 3, 4, 5]" by (simp add: upt_rec)
  from 1 2 show ?thesis by (simp add: u)
qed

theorem parseIDs_range_token_counterexample:
  "parseIDs [''0-8192''] = Inl ErrExceedsMaxSize \<and>
   parseIDs [''9223372036854775808-9223372036854775809''] =
     Inr [- 9223372036854775808, - 9223372036854775807]"
proof -
  have s1: "Sscanf (TrimSpace ''0-8192'') = Some (0, 8192)"
    by (simp add: scan_defs)
  have 1: "parseID [] ''0-8192'' = Inl ErrExceedsMaxSize"
    by (simp add: parseID_alone s1 maxIDsSize_def)
  have s2: "Sscanf (TrimSpace ''9223372036854775808-9223372036854775809'') =
      Some (9223372036854775808, 9223372036854775809)"
    by (simp add: scan_defs)
  have 2: "parseID [] ''9223372036854775808-9223372036854775809'' =
      Inr [- 9223372036854775808, - 9223372036854775807]"
    by (simp add: parseID_def s2 rangeLoop.simps maxIDsSize_def)
  show ?thesis by (simp add: parseIDs_def 1 2)
qed

subsection \<open>The ceiling on the number of IDs\<close>

text \<open>
  The ceiling, for tokens that expand on their own: the expansion of a token is what
  parseID yields for it with no IDs before it (\<open>parseID_alone\<close>), and the expansion of a
  list of tokens is the concatenation \<open>concat rs\<close>. If the first tokens \<open>pre\<close> expand to
  more than maxIDsSize = 8192 IDs, the parse fails with the capacity error; so it does when
  the next token is a range of more than 8192 IDs. If these are all the tokens and the
  expansion has at most 8192 IDs, the parse succeeds with the whole expansion. No
  successful parse returns more than 8192 IDs. A range that ends at \<open>2^64 - 1\<close> does not
  expand on its own (\<open>rangeLoop_wrap\<close>).
\<close>

lemma parseIDs_capacity:
  assumes pre: "list_all2 (\<lambda>t r. parseID [] t = Inr r) pre rs"
    and toks: "tokensOf specs = pre @ rest"
  shows
   "(length (concat rs) > maxIDsSize \<longrightarrow> parseIDs specs = Inl ErrExceedsMaxSize) \<and>
    (\<forall>t rest' s e. rest = t # rest' \<and> Sscanf (TrimSpace t) = Some (s, e) \<and> s < e \<and>
        unat e - unat s + 1 > maxIDsSize \<longrightarrow> parseIDs specs = Inl ErrExceedsMaxSize) \<and>
    (rest = [] \<and> length (concat rs) \<le> maxIDsSize \<longrightarrow> parseIDs specs = Inr (concat rs)) \<and>
    (\<forall>result. parseIDs specs = Inr result \<longrightarrow> length result \<le> maxIDsSize) \<and>
    maxIDsSize = 8192"
proof -
  have P: "parseIDs specs =
      (case parseIDsInner [] pre of Inl e \<Rightarrow> Inl e | Inr r \<Rightarrow> parseIDsInner r rest)"
    by (simp add: parseIDs_tokensOf toks parseIDsInner_append)
  have Q: "parseIDsInner [] pre =
      (if length (concat rs) \<le> maxIDsSize then Inr (concat rs) else Inl ErrExceedsMaxSize)"
    using parseIDsInner_expansions [OF pre, of "[]"] by simp
  have 1: "length (concat rs) > maxIDsSize \<longrightarrow> parseIDs specs = Inl ErrExceedsMaxSize"
    by (simp add: P Q)
  have 2: "parseIDs specs = Inl ErrExceedsMaxSize"
    if h: "rest = t # rest'" "Sscanf (TrimSpace t) = Some (s, e)" "s < e"
      "unat e - unat s + 1 > maxIDsSize" for t rest' s e
  proof (cases "length (concat rs) \<le> maxIDsSize")
    case True
    have "parseID [] t = Inl ErrExceedsMaxSize"
      using h(2,3,4) by (simp add: parseID_alone)
    then have "parseID (concat rs) t = Inl ErrExceedsMaxSize"
      using parseID_acc [OF True, of t] by simp
    then show ?thesis using True by (simp add: P Q h(1))
  next
    case False
    then show ?thesis using 1 by simp
  qed
  have 3: "rest = [] \<and> length (concat rs) \<le> maxIDsSize \<longrightarrow> parseIDs specs = Inr (concat rs)"
    by (simp add: P Q)
  have 4: "length result \<le> maxIDsSize" if "parseIDs specs = Inr result" for result
    using parseIDsInner_Inr_expansions [of "[]" "tokensOf specs" result] that
    by (auto simp: parseIDs_tokensOf)
  have 5: "maxIDsSize = 8192" by (simp add: maxIDsSize_def)
  from 1 2 3 4 5 show ?thesis by blast
qed

lemma parseID_0_8191: "parseID [] ''0-8191'' = Inr (map int [0..<8192])"
proof -
  have s1: "Sscanf (TrimSpace ''0-8191'') = Some (0, 8191)"
    by (simp add: scan_defs)
  have m: "map (\<lambda>n. sint (word_of_nat n :: u64)) [0..<Suc 8191] = map int [0..<Suc 8191]"
    by (rule map_sint_small) simp
  have e: "Suc 8191 = 8192" by simp
  show ?thesis
    unfolding parseID_alone s1 option.case prod.case
    by (simp add: maxIDsSize_def m [unfolded e] del: upt_rec_numeral upt_Suc)
qed

lemma parseIDs_capacity_example:
  "parseIDs [''0-8191'', ''7''] = Inl ErrExceedsMaxSize \<and>
   parseIDs [''7'', ''0-8192''] = Inl ErrExceedsMaxSize \<and>
   parseIDs [''0-8191''] = Inr (map int [0..<8192]) \<and>
   length (map int [0..<8192]) = 8192"
proof -
  have 7: "parseID [] ''7'' = Inr [7]" by (simp add: parser_defs)
  have a: "list_all2 (\<lambda>t r. parseID [] t = Inr r) [''0-8191'', ''7''] [map int [0..<8192], [7]]"
    by (simp add: parseID_0_8191 7 del: upt_rec_numeral)
  have ka: "tokensOf [''0-8191'', ''7''] = [''0-8191'', ''7''] @ []" by (simp add: tokensOf_def)
  have la: "length (concat [map int [0..<8192], [7]]) > maxIDsSize"
    by (simp add: maxIDsSize_def del: upt_rec_numeral)
  have 1: "parseIDs [''0-8191'', ''7''] = Inl ErrExceedsMaxSize"
    using parseIDs_capacity [OF a ka] la by blast
  have b: "list_all2 (\<lambda>t r. parseID [] t = Inr r) [''7''] [[7]]" by (simp add: 7)
  have kb: "tokensOf [''7'', ''0-8192''] = [''7''] @ [''0-8192'']" by (simp add: tokensOf_def)
  have sb: "Sscanf (TrimSpace ''0-8192'') = Some (0, 8192)" by (simp add: scan_defs)
  have lb: "(0 :: u64) < 8192 \<and> unat (8192 :: u64) - unat (0 :: u64) + 1 > maxIDsSize"
    by (simp add: maxIDsSize_def)
  have 2: "parseIDs [''7'', ''0-8192''] = Inl ErrExceedsMaxSize"
    using parseIDs_capacity [OF b kb] sb lb by blast
  have c: "list_all2 (\<lambda>t r. parseID [] t = Inr r) [''0-8191''] [map int [0..<8192]]"
    by (simp add: parseID_0_8191 del: upt_rec_numeral)
  have kc: "tokensOf [''0-8191''] = [''0-8191''] @ []" by (simp add: tokensOf_def)
  have lc: "length (concat [map int [0..<8192]]) \<le> maxIDsSize"
    by (simp add: maxIDsSize_def del: upt_rec_numeral)
  have "parseIDs [''0-8191''] = Inr (concat [map int [0..<8192]])"
    using parseIDs_capacity [OF c kc] lc by blast
  then have 3: "parseIDs [''0-8191''] = Inr (map int [0..<8192])"
    by (simp del: upt_rec_numeral)
  have 4: "length (map int [0..<8192]) = 8192" by (simp del: upt_rec_numeral)
  from 1 2 3 4 show ?thesis by blast
qed


text \<open>
  C5. The specification list \<open>["18446744073709543424-18446744073709551615"]\<close> is one
  range token with \<open>start < end\<close> that stands for exactly 8192 IDs, the ceiling. parseIDs
  fails on it with the capacity error: \<open>end\<close> is the largest \<open>uint\<close>, so \<open>start <= end\<close>
  never fails, \<open>start++\<close> wraps to 0 after the 8192nd ID, and the ceiling check ends the
  loop.
\<close>

theorem parseIDs_exactly_8192_fails:
  "Sscanf (TrimSpace ''18446744073709543424-18446744073709551615'') =
     Some (18446744073709543424, 18446744073709551615) \<and>
   unat (18446744073709551615 :: u64) - unat (18446744073709543424 :: u64) + 1 = 8192 \<and>
   parseIDs [''18446744073709543424-18446744073709551615''] = Inl ErrExceedsMaxSize"
proof -
  have s1: "Sscanf (TrimSpace ''18446744073709543424-18446744073709551615'') =
     Some (18446744073709543424, 18446744073709551615)"
    by (simp add: scan_defs)
  have m: "(18446744073709551615 :: u64) = - 1" by simp
  have lt: "\<not> (18446744073709551615 :: u64) \<le> 18446744073709543424" by simp
  have 1: "parseID [] ''18446744073709543424-18446744073709551615'' = Inl ErrExceedsMaxSize"
    unfolding parseID_alone s1 option.case prod.case using lt by (simp only: m if_False) simp
  have 2: "unat (18446744073709551615 :: u64) - unat (18446744073709543424 :: u64) + 1 = 8192"
    by simp
  from s1 1 2 show ?thesis by (simp add: parseIDs_def)
qed

subsection \<open>Single tokens\<close>

text \<open>
  C10 (as amended). A token that \<open>Sscanf\<close> does not read as a range is converted by
  \<open>Atoi\<close>. When the parse succeeds, the token is a non-empty string of decimal digits with
  an optional sign \<open>+\<close> or \<open>-\<close>, its value is in the range of \<open>int\<close>, and the value is in
  the result with its sign, between the IDs of the earlier and of the later tokens: a token
  such as \<open>-5\<close> is accepted, as a negative ID. When \<open>Atoi\<close> rejects the token the whole
  parse fails, and the error names the trimmed token and the conversion error unless an
  earlier token has failed already.
\<close>

theorem parseIDs_single_token:
  assumes sc: "Sscanf (TrimSpace tok) = None"
    and toks: "tokensOf specs = pre @ tok # post"
  shows
   "(\<forall>result. parseIDs specs = Inr result \<longrightarrow>
       (\<exists>num r1 r2 ds.
          Atoi (TrimSpace tok) = Inr num \<and> parseIDsInner [] pre = Inr r1 \<and>
          parseIDsInner [] post = Inr r2 \<and> result = r1 @ num # r2 \<and>
          ds \<noteq> [] \<and> (\<forall>c\<in>set ds. isDigit c) \<and>
          ((TrimSpace tok = ds \<or> TrimSpace tok = CHR ''+'' # ds) \<and>
             num = int (digitsVal ds) \<and> digitsVal ds < 2 ^ 63 \<or>
           TrimSpace tok = CHR ''-'' # ds \<and>
             num = - int (digitsVal ds) \<and> digitsVal ds \<le> 2 ^ 63))) \<and>
    (\<forall>num r1 r2. Atoi (TrimSpace tok) = Inr num \<and> parseIDsInner [] pre = Inr r1 \<and>
        parseIDsInner [] post = Inr r2 \<and> length r1 + 1 + length r2 \<le> maxIDsSize \<longrightarrow>
        parseIDs specs = Inr (r1 @ num # r2)) \<and>
    (\<forall>err. Atoi (TrimSpace tok) = Inl err \<longrightarrow>
       (\<exists>e. parseIDs specs = Inl e) \<and>
       (\<forall>r1. parseIDsInner [] pre = Inr r1 \<longrightarrow>
          parseIDs specs = Inl (ErrWrongFormat (TrimSpace tok) err)))"
proof -
  have P: "parseIDs specs = parseIDsInner [] (pre @ tok # post)"
    by (simp add: parseIDs_tokensOf toks)
  have A: "\<exists>num r1 r2 ds.
          Atoi (TrimSpace tok) = Inr num \<and> parseIDsInner [] pre = Inr r1 \<and>
          parseIDsInner [] post = Inr r2 \<and> result = r1 @ num # r2 \<and>
          ds \<noteq> [] \<and> (\<forall>c\<in>set ds. isDigit c) \<and>
          ((TrimSpace tok = ds \<or> TrimSpace tok = CHR ''+'' # ds) \<and>
             num = int (digitsVal ds) \<and> digitsVal ds < 2 ^ 63 \<or>
           TrimSpace tok = CHR ''-'' # ds \<and>
             num = - int (digitsVal ds) \<and> digitsVal ds \<le> 2 ^ 63)"
    if res: "parseIDs specs = Inr result" for result
  proof -
    from res parseIDsInner_Inr_expansions [of "[]" "pre @ tok # post" result]
    obtain rs where rs: "list_all2 (\<lambda>t r. parseID [] t = Inr r) (pre @ tok # post) rs"
      "result = concat rs" "length result \<le> maxIDsSize"
      by (auto simp: P)
    from rs(1) obtain rs1 r rs2 where sp: "rs = rs1 @ r # rs2"
      "list_all2 (\<lambda>t r. parseID [] t = Inr r) pre rs1" "parseID [] tok = Inr r"
      "list_all2 (\<lambda>t r. parseID [] t = Inr r) post rs2"
      by (auto simp: list_all2_append1 list_all2_Cons1)
    from sp(3) obtain num where num: "Atoi (TrimSpace tok) = Inr num" "r = [num]"
      by (auto simp: parseID_alone sc split: sum.splits)
    have l: "length (concat rs1) \<le> maxIDsSize" "length (concat rs2) \<le> maxIDsSize"
      using rs(2,3) sp(1) by simp_all
    have p: "parseIDsInner [] pre = Inr (concat rs1)" "parseIDsInner [] post = Inr (concat rs2)"
      using parseIDsInner_expansions [OF sp(2), of "[]"] parseIDsInner_expansions [OF sp(4), of "[]"] l
      by simp_all
    have r: "result = concat rs1 @ num # concat rs2"
      using rs(2) sp(1) num(2) by simp
    from Atoi_Inr [OF num(1)] obtain ds where
      "ds \<noteq> [] \<and> (\<forall>c\<in>set ds. isDigit c) \<and>
          ((TrimSpace tok = ds \<or> TrimSpace tok = CHR ''+'' # ds) \<and>
             num = int (digitsVal ds) \<and> digitsVal ds < 2 ^ 63 \<or>
           TrimSpace tok = CHR ''-'' # ds \<and>
             num = - int (digitsVal ds) \<and> digitsVal ds \<le> 2 ^ 63)"
      by blast
    with num(1) p r show ?thesis by blast
  qed
  have B: "parseIDs specs = Inr (r1 @ num # r2)"
    if h: "Atoi (TrimSpace tok) = Inr num" "parseIDsInner [] pre = Inr r1"
      "parseIDsInner [] post = Inr r2" "length r1 + 1 + length r2 \<le> maxIDsSize"
    for num r1 r2
  proof -
    have alone: "parseID [] tok = Inr [num]" by (simp add: parseID_alone sc h(1))
    have r1: "length r1 \<le> maxIDsSize" using h(4) by simp
    have 1: "parseID r1 tok = Inr (r1 @ [num])"
      using parseID_acc [OF r1, of tok] alone h(4) by simp
    from h(3) parseIDsInner_Inr_expansions [of "[]" post r2]
    obtain rs2 where rs2: "list_all2 (\<lambda>t r. parseID [] t = Inr r) post rs2" "r2 = concat rs2"
      by auto
    have 2: "parseIDsInner (r1 @ [num]) post = Inr ((r1 @ [num]) @ r2)"
      using parseIDsInner_expansions [OF rs2(1), of "r1 @ [num]"] h(4) rs2(2) by simp
    show ?thesis using h(2) 1 2 by (simp add: P parseIDsInner_append)
  qed
  have C: "(\<exists>e. parseIDs specs = Inl e) \<and>
       (\<forall>r1. parseIDsInner [] pre = Inr r1 \<longrightarrow>
          parseIDs specs = Inl (ErrWrongFormat (TrimSpace tok) err))"
    if h: "Atoi (TrimSpace tok) = Inl err" for err
  proof (intro conjI allI impI)
    have alone: "parseID [] tok = Inl (ErrWrongFormat (TrimSpace tok) err)"
      by (simp add: parseID_alone sc h)
    show "\<exists>e. parseIDs specs = Inl e"
      unfolding P by (rule parseIDsInner_Inl [OF alone]) simp_all
    fix r1 assume "parseIDsInner [] pre = Inr r1"
    then show "parseIDs specs = Inl (ErrWrongFormat (TrimSpace tok) err)"
      unfolding P by (rule parseIDsInner_first_error [OF _ alone]) simp
  qed
  from A B C show ?thesis by blast
qed

theorem parseIDs_single_token_witness:
  "parseIDs [''1, -5'', ''+3''] = Inr [1, - 5, 3] \<and>
   parseIDs [''1,x'', ''3''] = Inl (ErrWrongFormat ''x'' ErrSyntax)"
proof -
  have s1: "Sscanf (TrimSpace '' -5'') = None" by (simp add: scan_defs)
  have k1: "tokensOf [''1, -5'', ''+3''] = [''1''] @ '' -5'' # [''+3'']"
    by (simp add: tokensOf_def)
  have a1: "Atoi (TrimSpace '' -5'') = Inr (- 5)" by (simp add: scan_defs)
  have p: "parseIDsInner [] [''1''] = Inr [1]" "parseIDsInner [] [''+3''] = Inr [3]"
    by (simp_all add: parser_defs)
  have l: "length [1::int] + 1 + length [3::int] \<le> maxIDsSize" by (simp add: maxIDsSize_def)
  have 1: "parseIDs [''1, -5'', ''+3''] = Inr ([1] @ (- 5) # [3])"
    using parseIDs_single_token [OF s1 k1] a1 p l by blast
  have s2: "Sscanf (TrimSpace ''x'') = None" by (simp add: scan_defs)
  have k2: "tokensOf [''1,x'', ''3''] = [''1''] @ ''x'' # [''3'']"
    by (simp add: tokensOf_def)
  have a2: "Atoi (TrimSpace ''x'') = Inl ErrSyntax" by (simp add: scan_defs)
  have t2: "TrimSpace ''x'' = ''x''" by (simp add: scan_defs)
  have 2: "parseIDs [''1,x'', ''3''] = Inl (ErrWrongFormat (TrimSpace ''x'') ErrSyntax)"
    using parseIDs_single_token [OF s2 k2] a2 p(1) by blast
  from 1 2 t2 show ?thesis by simp
qed

theorem parseIDs_single_token_counterexample:
  "parseIDs [''-5''] = Inr [- 5]"
  by (simp add: parser_defs)

section \<open>Properties of the MSR service\<close>

subsection \<open>Executions of readDataFromMsr\<close>

lemma distinct_receiveOrder: "distinct receiveOrder"
  by (simp add: receiveOrder_def c3StateResidencyLocation_def c6StateResidencyLocation_def
      c7StateResidencyLocation_def maximumFrequencyClockCountLocation_def
      actualFrequencyClockCountLocation_def timestampCounterLocation_def
      throttleTemperatureLocation_def temperatureLocation_def)

lemma groupInv_start: "groupInv rd offsets (startGroup offsets)"
  by (simp add: groupInv_def startGroup_def)

lemma groupInvD:
  assumes "groupInv rd offsets g"
  shows "routines g off \<noteq> None \<Longrightarrow> off \<in> set offsets"
    and "length (received g) \<le> length receiveOrder"
    and "routines g off = Some (Returned (Some x)) \<Longrightarrow>
           (\<exists>e. rd off = Inl e \<and> x = ErrReadingMSRFile e) \<or> firstErr g \<noteq> None"
    and "firstErr g = Some x \<Longrightarrow>
           \<exists>off e. off \<in> set offsets \<and> rd off = Inl e \<and> x = ErrReadingMSRFile e"
    and "off \<in> set offsets \<Longrightarrow> rd off = Inl e \<Longrightarrow>
           routines g off = Some Reading \<or> (\<exists>x. routines g off = Some (Returned (Some x))) \<or>
           firstErr g \<noteq> None"
    and "firstErr g = None \<Longrightarrow> routines g off = Some (Sending v) \<Longrightarrow> rd off = Inr v"
    and "firstErr g = None \<Longrightarrow>
           routines g off = Some (Returned None) \<or> routines g off = Some Finished \<Longrightarrow>
           \<exists>i < length (received g). receiveOrder ! i = off \<and> rd off = Inr (received g ! i)"
    and "firstErr g = None \<Longrightarrow> i < length (received g) \<Longrightarrow>
           rd (receiveOrder ! i) = Inr (received g ! i) \<or>
           (\<exists>x. routines g (receiveOrder ! i) = Some (Returned (Some x)))"
  using assms unfolding groupInv_def by blast+

lemma groupInvI:
  assumes "\<And>off. routines g off \<noteq> None \<Longrightarrow> off \<in> set offsets"
    and "length (received g) \<le> length receiveOrder"
    and "\<And>off x. routines g off = Some (Returned (Some x)) \<Longrightarrow>
           (\<exists>e. rd off = Inl e \<and> x = ErrReadingMSRFile e) \<or> firstErr g \<noteq> None"
    and "\<And>x. firstErr g = Some x \<Longrightarrow>
           \<exists>off e. off \<in> set offsets \<and> rd off = Inl e \<and> x = ErrReadingMSRFile e"
    and "\<And>off e. off \<in> set offsets \<Longrightarrow> rd off = Inl e \<Longrightarrow>
           routines g off = Some Reading \<or> (\<exists>x. routines g off = Some (Returned (Some x))) \<or>
           firstErr g \<noteq> None"
    and "\<And>off v. firstErr g = None \<Longrightarrow> routines g off = Some (Sending v) \<Longrightarrow> rd off = Inr v"
    and "\<And>off. firstErr g = None \<Longrightarrow>
           routines g off = Some (Returned None) \<or> routines g off = Some Finished \<Longrightarrow>
           \<exists>i < length (received g). receiveOrder ! i = off \<and> rd off = Inr (received g ! i)"
    and "\<And>i. firstErr g = None \<Longrightarrow> i < length (received g) \<Longrightarrow>
           rd (receiveOrder ! i) = Inr (received g ! i) \<or>
           (\<exists>x. routines g (receiveOrder ! i) = Some (Returned (Some x)))"
  shows "groupInv rd offsets g"
  unfolding groupInv_def using assms by blast

lemma step_Read:
  assumes "step rd (Read off) g = Some g'"
  shows "routines g off = Some Reading"
    and "firstErr g' = firstErr g" and "received g' = received g"
    and "routines g' = (routines g)(off \<mapsto>
           (case rd off of Inl err \<Rightarrow> Returned (Some (ErrReadingMSRFile err)) | Inr v \<Rightarrow> Sending v))"
  using assms by (auto split: option.splits goroutine.splits sum.splits)

lemma groupInv_Read:
  assumes inv: "groupInv rd offsets g" and st: "step rd (Read off) g = Some g'"
  shows "groupInv rd offsets g'"
proof (rule groupInvI)
  note s = step_Read [OF st]
  note d = groupInvD [OF inv]
  show "\<And>o'. routines g' o' \<noteq> None \<Longrightarrow> o' \<in> set offsets"
    using d(1) s(1) by (auto simp: s(4) split: if_splits)
  show "length (received g') \<le> length receiveOrder"
    using d(2) by (simp add: s(3))
  show "\<And>o' x. routines g' o' = Some (Returned (Some x)) \<Longrightarrow>
           (\<exists>e. rd o' = Inl e \<and> x = ErrReadingMSRFile e) \<or> firstErr g' \<noteq> None"
    using d(3) by (auto simp: s(2,4) split: if_splits sum.splits)
  show "\<And>x. firstErr g' = Some x \<Longrightarrow>
           \<exists>off e. off \<in> set offsets \<and> rd off = Inl e \<and> x = ErrReadingMSRFile e"
    using d(4) by (simp add: s(2))
  show "\<And>o' e. o' \<in> set offsets \<Longrightarrow> rd o' = Inl e \<Longrightarrow>
           routines g' o' = Some Reading \<or> (\<exists>x. routines g' o' = Some (Returned (Some x))) \<or>
           firstErr g' \<noteq> None"
    using d(5) by (auto simp: s(2,4))
  show "\<And>o' v. firstErr g' = None \<Longrightarrow> routines g' o' = Some (Sending v) \<Longrightarrow> rd o' = Inr v"
    using d(6) by (auto simp: s(2,4) split: if_splits sum.splits)
  show "\<And>o'. firstErr g' = None \<Longrightarrow>
           routines g' o' = Some (Returned None) \<or> routines g' o' = Some Finished \<Longrightarrow>
           \<exists>i < length (received g'). receiveOrder ! i = o' \<and> rd o' = Inr (received g' ! i)"
    using d(7) by (auto simp: s(2,3,4) split: if_splits sum.splits)
  show "\<And>i. firstErr g' = None \<Longrightarrow> i < length (received g') \<Longrightarrow>
           rd (receiveOrder ! i) = Inr (received g' ! i) \<or>
           (\<exists>x. routines g' (receiveOrder ! i) = Some (Returned (Some x)))"
  proof -
    fix i assume a: "firstErr g' = None" "i < length (received g')"
    then have "rd (receiveOrder ! i) = Inr (received g ! i) \<or>
           (\<exists>x. routines g (receiveOrder ! i) = Some (Returned (Some x)))"
      using d(8) [of i] by (simp add: s(2,3))
    then show "rd (receiveOrder ! i) = Inr (received g' ! i) \<or>
           (\<exists>x. routines g' (receiveOrder ! i) = Some (Returned (Some x)))"
      using s(1) by (auto simp: s(3,4))
  qed
qed


lemma step_CtxDone:
  assumes "step rd (CtxDone off) g = Some g'"
  shows "\<exists>v. routines g off = Some (Sending v)" and "firstErr g \<noteq> None"
    and "firstErr g' = firstErr g" and "received g' = received g"
    and "routines g' = (routines g)(off \<mapsto> Returned (Some (ErrReadingMSRFile ErrContextCanceled)))"
  using assms by (auto split: option.splits goroutine.splits if_splits)

lemma groupInv_CtxDone:
  assumes inv: "groupInv rd offsets g" and st: "step rd (CtxDone off) g = Some g'"
  shows "groupInv rd offsets g'"
proof (rule groupInvI)
  note s = step_CtxDone [OF st]
  note d = groupInvD [OF inv]
  have ne: "firstErr g' \<noteq> None" using s(2,3) by simp
  show "\<And>o'. routines g' o' \<noteq> None \<Longrightarrow> o' \<in> set offsets"
    using d(1) s(1) by (auto simp: s(5) split: if_splits)
  show "length (received g') \<le> length receiveOrder"
    using d(2) by (simp add: s(4))
  show "\<And>o' x. routines g' o' = Some (Returned (Some x)) \<Longrightarrow>
           (\<exists>e. rd o' = Inl e \<and> x = ErrReadingMSRFile e) \<or> firstErr g' \<noteq> None"
    using ne by simp
  show "\<And>x. firstErr g' = Some x \<Longrightarrow>
           \<exists>off e. off \<in> set offsets \<and> rd off = Inl e \<and> x = ErrReadingMSRFile e"
    using d(4) by (simp add: s(3))
  show "\<And>o' e. o' \<in> set offsets \<Longrightarrow> rd o' = Inl e \<Longrightarrow>
           routines g' o' = Some Reading \<or> (\<exists>x. routines g' o' = Some (Returned (Some x))) \<or>
           firstErr g' \<noteq> None"
    using ne by simp
  show "\<And>o' v. firstErr g' = None \<Longrightarrow> routines g' o' = Some (Sending v) \<Longrightarrow> rd o' = Inr v"
    using ne by simp
  show "\<And>o'. firstErr g' = None \<Longrightarrow>
           routines g' o' = Some (Returned None) \<or> routines g' o' = Some Finished \<Longrightarrow>
           \<exists>i < length (received g'). receiveOrder ! i = o' \<and> rd o' = Inr (received g' ! i)"
    using ne by simp
  show "\<And>i. firstErr g' = None \<Longrightarrow> i < length (received g') \<Longrightarrow>
           rd (receiveOrder ! i) = Inr (received g' ! i) \<or>
           (\<exists>x. routines g' (receiveOrder ! i) = Some (Returned (Some x)))"
    using ne by simp
qed

lemma step_Send:
  assumes "step rd (Send off) g = Some g'"
  shows "\<exists>v. routines g off = Some (Sending v) \<and> received g' = received g @ [v]"
    and "length (received g) < length receiveOrder"
    and "receiveOrder ! length (received g) = off"
    and "firstErr g' = firstErr g"
    and "routines g' = (routines g)(off \<mapsto> Returned None)"
  using assms by (auto split: option.splits goroutine.splits if_splits)

lemma groupInv_Send:
  assumes inv: "groupInv rd offsets g" and st: "step rd (Send off) g = Some g'"
  shows "groupInv rd offsets g'"
proof (rule groupInvI)
  note s = step_Send [OF st]
  note d = groupInvD [OF inv]
  from s(1) obtain v where v: "routines g off = Some (Sending v)" "received g' = received g @ [v]"
    by blast
  let ?k = "length (received g)"
  have idx: "\<And>i. i < ?k \<Longrightarrow> receiveOrder ! i \<noteq> off"
    using nth_eq_iff_index_eq [OF distinct_receiveOrder] s(2,3) by (metis less_irrefl less_trans)
  show "\<And>o'. routines g' o' \<noteq> None \<Longrightarrow> o' \<in> set offsets"
    using d(1) v(1) by (auto simp: s(5) split: if_splits)
  show "length (received g') \<le> length receiveOrder"
    using s(2) by (simp add: v(2))
  show "\<And>o' x. routines g' o' = Some (Returned (Some x)) \<Longrightarrow>
           (\<exists>e. rd o' = Inl e \<and> x = ErrReadingMSRFile e) \<or> firstErr g' \<noteq> None"
    using d(3) by (auto simp: s(4,5) split: if_splits)
  show "\<And>x. firstErr g' = Some x \<Longrightarrow>
           \<exists>off e. off \<in> set offsets \<and> rd off = Inl e \<and> x = ErrReadingMSRFile e"
    using d(4) by (simp add: s(4))
  show "routines g' o' = Some Reading \<or> (\<exists>x. routines g' o' = Some (Returned (Some x))) \<or>
           firstErr g' \<noteq> None" if "o' \<in> set offsets" "rd o' = Inl e" for o' e
    using d(5) [OF that] v(1) by (cases "o' = off") (auto simp: s(4,5))
  show "\<And>o' v. firstErr g' = None \<Longrightarrow> routines g' o' = Some (Sending v) \<Longrightarrow> rd o' = Inr v"
    using d(6) by (auto simp: s(4,5) split: if_splits)
  show "\<exists>i < length (received g'). receiveOrder ! i = o' \<and> rd o' = Inr (received g' ! i)"
    if a: "firstErr g' = None"
      "routines g' o' = Some (Returned None) \<or> routines g' o' = Some Finished" for o'
  proof (cases "o' = off")
    case True
    have "rd off = Inr v" using d(6) [of off v] a(1) v(1) by (simp add: s(4))
    then show ?thesis using True s(3) by (intro exI [of _ ?k]) (simp add: v(2))
  next
    case False
    with a have "\<exists>i < ?k. receiveOrder ! i = o' \<and> rd o' = Inr (received g ! i)"
      using d(7) [of o'] by (simp add: s(4,5))
    then obtain i where "i < ?k" "receiveOrder ! i = o'" "rd o' = Inr (received g ! i)" by blast
    then show ?thesis by (intro exI [of _ i]) (simp add: v(2) nth_append)
  qed
  show "rd (receiveOrder ! i) = Inr (received g' ! i) \<or>
           (\<exists>x. routines g' (receiveOrder ! i) = Some (Returned (Some x)))"
    if a: "firstErr g' = None" "i < length (received g')" for i
  proof (cases "i < ?k")
    case True
    then have "rd (receiveOrder ! i) = Inr (received g ! i) \<or>
           (\<exists>x. routines g (receiveOrder ! i) = Some (Returned (Some x)))"
      using d(8) [of i] a(1) by (simp add: s(4))
    then show ?thesis using True idx [OF True] by (auto simp: v(2) nth_append s(5))
  next
    case False
    then have i: "i = ?k" using a(2) by (simp add: v(2))
    have "rd off = Inr v" using d(6) [of off v] a(1) v(1) by (simp add: s(4))
    then show ?thesis using s(3) by (simp add: i v(2))
  qed
qed

lemma step_Exit:
  assumes "step rd (Exit off) g = Some g'"
  shows "\<exists>r. routines g off = Some (Returned r) \<and>
           firstErr g' = (case firstErr g of None \<Rightarrow> r | Some err \<Rightarrow> Some err)"
    and "received g' = received g"
    and "routines g' = (routines g)(off \<mapsto> Finished)"
  using assms by (auto split: option.splits goroutine.splits if_splits)

lemma groupInv_Exit:
  assumes inv: "groupInv rd offsets g" and st: "step rd (Exit off) g = Some g'"
  shows "groupInv rd offsets g'"
proof (rule groupInvI)
  note s = step_Exit [OF st]
  note d = groupInvD [OF inv]
  from s(1) obtain r where r: "routines g off = Some (Returned r)"
    "firstErr g' = (case firstErr g of None \<Rightarrow> r | Some err \<Rightarrow> Some err)"
    by blast
  have mono: "firstErr g \<noteq> None \<Longrightarrow> firstErr g' \<noteq> None"
    by (auto simp: r(2))
  have none: "firstErr g' = None \<Longrightarrow> firstErr g = None \<and> r = None"
    by (auto simp: r(2) split: option.splits)
  show "\<And>o'. routines g' o' \<noteq> None \<Longrightarrow> o' \<in> set offsets"
    using d(1) r(1) by (auto simp: s(3) split: if_splits)
  show "length (received g') \<le> length receiveOrder"
    using d(2) by (simp add: s(2))
  show "(\<exists>e. rd o' = Inl e \<and> x = ErrReadingMSRFile e) \<or> firstErr g' \<noteq> None"
    if "routines g' o' = Some (Returned (Some x))" for o' x
  proof -
    from that have "routines g o' = Some (Returned (Some x))"
      by (auto simp: s(3) split: if_splits)
    from d(3) [OF this] mono show ?thesis by blast
  qed
  show "\<exists>off e. off \<in> set offsets \<and> rd off = Inl e \<and> x = ErrReadingMSRFile e"
    if a: "firstErr g' = Some x" for x
  proof (cases "firstErr g")
    case None
    with a have "r = Some x" by (simp add: r(2))
    with r(1) have rt: "routines g off = Some (Returned (Some x))" by simp
    have "off \<in> set offsets" using d(1) [of off] r(1) by simp
    with d(3) [OF rt] None show ?thesis by blast
  next
    case (Some y)
    with a have "y = x" by (simp add: r(2))
    with d(4) [of x] Some show ?thesis by simp
  qed
  show "routines g' o' = Some Reading \<or> (\<exists>x. routines g' o' = Some (Returned (Some x))) \<or>
           firstErr g' \<noteq> None" if a: "o' \<in> set offsets" "rd o' = Inl e" for o' e
  proof (cases "firstErr g' = None")
    case True
    from none [OF True] have n: "firstErr g = None" "r = None" by simp_all
    from d(5) [OF a] n r(1) have "o' \<noteq> off" by auto
    with d(5) [OF a] n show ?thesis by (auto simp: s(3))
  next
    case False
    then show ?thesis by simp
  qed
  show "rd o' = Inr v" if a: "firstErr g' = None" "routines g' o' = Some (Sending v)" for o' v
  proof -
    from a(2) have "routines g o' = Some (Sending v)" by (auto simp: s(3) split: if_splits)
    with d(6) [of o' v] none [OF a(1)] show ?thesis by simp
  qed
  show "\<exists>i < length (received g'). receiveOrder ! i = o' \<and> rd o' = Inr (received g' ! i)"
    if a: "firstErr g' = None"
      "routines g' o' = Some (Returned None) \<or> routines g' o' = Some Finished" for o'
  proof -
    from none [OF a(1)] have n: "firstErr g = None" "r = None" by simp_all
    have "routines g o' = Some (Returned None) \<or> routines g o' = Some Finished"
      using a(2) r(1) n(2) by (auto simp: s(3) split: if_splits)
    from d(7) [OF n(1) this] show ?thesis by (simp add: s(2))
  qed
  show "rd (receiveOrder ! i) = Inr (received g' ! i) \<or>
           (\<exists>x. routines g' (receiveOrder ! i) = Some (Returned (Some x)))"
    if a: "firstErr g' = None" "i < length (received g')" for i
  proof -
    from none [OF a(1)] have n: "firstErr g = None" "r = None" by simp_all
    from d(8) [OF n(1), of i] a(2)
    have "rd (receiveOrder ! i) = Inr (received g ! i) \<or>
           (\<exists>x. routines g (receiveOrder ! i) = Some (Returned (Some x)))"
      by (simp add: s(2))
    then show ?thesis using r(1) n(2) by (auto simp: s(2,3))
  qed
qed

lemma step_RecvClosed:
  assumes "step rd RecvClosed g = Some g'"
  shows "length (received g) < length receiveOrder"
    and "(\<exists>r. routines g (receiveOrder ! length (received g)) = Some (Returned r)) \<or>
         routines g (receiveOrder ! length (received g)) = Some Finished"
    and "firstErr g' = firstErr g" and "received g' = received g @ [0]"
    and "routines g' = routines g"
  using assms by (auto split: option.splits goroutine.splits if_splits)

lemma groupInv_RecvClosed:
  assumes inv: "groupInv rd offsets g" and st: "step rd RecvClosed g = Some g'"
  shows "groupInv rd offsets g'"
proof (rule groupInvI)
  note s = step_RecvClosed [OF st]
  note d = groupInvD [OF inv]
  let ?k = "length (received g)"
  have idx: "\<And>i. i < ?k \<Longrightarrow> receiveOrder ! i \<noteq> receiveOrder ! ?k"
    using nth_eq_iff_index_eq [OF distinct_receiveOrder] s(1) by (metis less_irrefl less_trans)
  show "\<And>o'. routines g' o' \<noteq> None \<Longrightarrow> o' \<in> set offsets"
    using d(1) by (simp add: s(5))
  show "length (received g') \<le> length receiveOrder"
    using s(1) by (simp add: s(4))
  show "\<And>o' x. routines g' o' = Some (Returned (Some x)) \<Longrightarrow>
           (\<exists>e. rd o' = Inl e \<and> x = ErrReadingMSRFile e) \<or> firstErr g' \<noteq> None"
    using d(3) by (simp add: s(3,5))
  show "\<And>x. firstErr g' = Some x \<Longrightarrow>
           \<exists>off e. off \<in> set offsets \<and> rd off = Inl e \<and> x = ErrReadingMSRFile e"
    using d(4) by (simp add: s(3))
  show "\<And>o' e. o' \<in> set offsets \<Longrightarrow> rd o' = Inl e \<Longrightarrow>
           routines g' o' = Some Reading \<or> (\<exists>x. routines g' o' = Some (Returned (Some x))) \<or>
           firstErr g' \<noteq> None"
    using d(5) by (simp add: s(3,5))
  show "\<And>o' v. firstErr g' = None \<Longrightarrow> routines g' o' = Some (Sending v) \<Longrightarrow> rd o' = Inr v"
    using d(6) by (simp add: s(3,5))
  show "\<exists>i < length (received g'). receiveOrder ! i = o' \<and> rd o' = Inr (received g' ! i)"
    if a: "firstErr g' = None"
      "routines g' o' = Some (Returned None) \<or> routines g' o' = Some Finished" for o'
  proof -
    from a d(7) [of o'] obtain i where "i < ?k" "receiveOrder ! i = o'" "rd o' = Inr (received g ! i)"
      by (auto simp: s(3,5))
    then show ?thesis by (intro exI [of _ i]) (simp add: s(4) nth_append)
  qed
  show "rd (receiveOrder ! i) = Inr (received g' ! i) \<or>
           (\<exists>x. routines g' (receiveOrder ! i) = Some (Returned (Some x)))"
    if a: "firstErr g' = None" "i < length (received g')" for i
  proof (cases "i < ?k")
    case True
    with d(8) [of i] a(1) show ?thesis by (simp add: s(3,4,5) nth_append)
  next
    case False
    then have i: "i = ?k" using a(2) by (simp add: s(4))
    have n: "firstErr g = None" using a(1) by (simp add: s(3))
    have "\<exists>x. routines g (receiveOrder ! ?k) = Some (Returned (Some x))"
    proof (rule ccontr)
      assume c: "\<not> (\<exists>x. routines g (receiveOrder ! ?k) = Some (Returned (Some x)))"
      with s(2) have "routines g (receiveOrder ! ?k) = Some (Returned None) \<or>
          routines g (receiveOrder ! ?k) = Some Finished"
        by (metis option.exhaust)
      from d(7) [OF n this] idx show False by blast
    qed
    then show ?thesis by (simp add: i s(5))
  qed
qed

lemma groupInv_step:
  "groupInv rd offsets g \<Longrightarrow> step rd a g = Some g' \<Longrightarrow> groupInv rd offsets g'"
  by (cases a) (auto intro: groupInv_Read groupInv_CtxDone groupInv_Send groupInv_Exit
      groupInv_RecvClosed)

lemma groupInv_run:
  "groupInv rd offsets g \<Longrightarrow> run rd sched g = Some g' \<Longrightarrow> groupInv rd offsets g'"
proof (induction sched arbitrary: g)
  case Nil
  then show ?case by simp
next
  case (Cons a sched)
  from Cons.prems(2) obtain g1 where g1: "step rd a g = Some g1" "run rd sched g1 = Some g'"
    by (auto split: option.splits)
  from Cons.IH [OF groupInv_step [OF Cons.prems(1) g1(1)] g1(2)] show ?case .
qed


lemma waitReturnsD:
  "waitReturns offsets g \<Longrightarrow> length (received g) = length receiveOrder"
  "waitReturns offsets g \<Longrightarrow> off \<in> set offsets \<Longrightarrow> routines g off = Some Finished"
  by (auto simp: waitReturns_def list_all_iff)

lemma final_error:
  assumes inv: "groupInv rd offsets g" and w: "waitReturns offsets g"
    and off: "off \<in> set offsets" "rd off = Inl e"
  shows "\<exists>off' e'. off' \<in> set offsets \<and> rd off' = Inl e' \<and>
           firstErr g = Some (ErrReadingMSRFile e')"
proof -
  have "routines g off = Some Finished" by (rule waitReturnsD(2) [OF w off(1)])
  with groupInvD(5) [OF inv off] obtain x where x: "firstErr g = Some x" by auto
  from groupInvD(4) [OF inv x] x show ?thesis by blast
qed

lemma final_ok:
  assumes inv: "groupInv rd offsets g" and w: "waitReturns offsets g"
    and ok: "firstErr g = None"
  shows "\<forall>off\<in>set offsets. \<exists>v. rd off = Inr v"
    and "\<forall>i < length receiveOrder. rd (receiveOrder ! i) = Inr (received g ! i)"
proof -
  show "\<forall>off\<in>set offsets. \<exists>v. rd off = Inr v"
  proof
    fix off assume off: "off \<in> set offsets"
    show "\<exists>v. rd off = Inr v"
    proof (cases "rd off")
      case (Inl e)
      from final_error [OF inv w off Inl] ok show ?thesis by simp
    next
      case (Inr v)
      then show ?thesis by blast
    qed
  qed
  show "\<forall>i < length receiveOrder. rd (receiveOrder ! i) = Inr (received g ! i)"
  proof (intro allI impI)
    fix i assume i: "i < length receiveOrder"
    then have il: "i < length (received g)" by (simp add: waitReturnsD(1) [OF w])
    have "\<not> (\<exists>x. routines g (receiveOrder ! i) = Some (Returned (Some x)))"
    proof (cases "receiveOrder ! i \<in> set offsets")
      case True
      from waitReturnsD(2) [OF w True] show ?thesis by simp
    next
      case False
      with groupInvD(1) [OF inv, of "receiveOrder ! i"] show ?thesis by auto
    qed
    with groupInvD(8) [OF inv ok il] show "rd (receiveOrder ! i) = Inr (received g ! i)"
      by blast
  qed
qed

lemma run_append:
  "run rd (xs @ ys) g = (case run rd xs g of None \<Rightarrow> None | Some g' \<Rightarrow> run rd ys g')"
  by (induction xs arbitrary: g) (auto split: option.splits)

lemma run_sequentialSteps:
  assumes "routines g off = Some Reading" "length (received g) < length receiveOrder"
    "receiveOrder ! length (received g) = off"
  shows "\<exists>g'. run rd (sequentialSteps rd off) g = Some g' \<and>
           routines g' = (routines g)(off \<mapsto> Finished) \<and>
           length (received g') = Suc (length (received g))"
  using assms by (cases "rd off") (simp_all add: sequentialSteps_def)

lemma run_sequential_suffix:
  assumes "receiveOrder = dn @ offs" "length (received g) = length dn"
    "\<forall>off\<in>set offs. routines g off = Some Reading"
  shows "\<exists>g'. run rd (concat (map (sequentialSteps rd) offs)) g = Some g' \<and>
           length (received g') = length receiveOrder \<and>
           (\<forall>off\<in>set offs. routines g' off = Some Finished) \<and>
           (\<forall>off. off \<notin> set offs \<longrightarrow> routines g' off = routines g off)"
  using assms
proof (induction offs arbitrary: g dn)
  case Nil
  then show ?case by simp
next
  case (Cons off rest)
  have d: "distinct (dn @ off # rest)" using distinct_receiveOrder Cons.prems(1) by simp
  then have nr: "off \<notin> set rest" by simp
  have k: "length (received g) < length receiveOrder" "receiveOrder ! length (received g) = off"
    using Cons.prems(2) unfolding Cons.prems(1) by (simp_all add: nth_append)
  from run_sequentialSteps [OF _ k, of rd] Cons.prems(3)
  obtain g1 where g1: "run rd (sequentialSteps rd off) g = Some g1"
    "routines g1 = (routines g)(off \<mapsto> Finished)"
    "length (received g1) = Suc (length (received g))"
    by auto
  have "\<exists>g'. run rd (concat (map (sequentialSteps rd) rest)) g1 = Some g' \<and>
           length (received g') = length receiveOrder \<and>
           (\<forall>off\<in>set rest. routines g' off = Some Finished) \<and>
           (\<forall>off. off \<notin> set rest \<longrightarrow> routines g' off = routines g1 off)"
  proof (rule Cons.IH [of "dn @ [off]"])
    show "receiveOrder = (dn @ [off]) @ rest" using Cons.prems(1) by simp
    show "length (received g1) = length (dn @ [off])" using g1(3) Cons.prems(2) by simp
    show "\<forall>off\<in>set rest. routines g1 off = Some Reading"
      using Cons.prems(3) nr by (auto simp: g1(2))
  qed
  then obtain g' where g': "run rd (concat (map (sequentialSteps rd) rest)) g1 = Some g'"
    "length (received g') = length receiveOrder"
    "\<forall>off\<in>set rest. routines g' off = Some Finished"
    "\<forall>off. off \<notin> set rest \<longrightarrow> routines g' off = routines g1 off"
    by blast
  have "run rd (concat (map (sequentialSteps rd) (off # rest))) g = Some g'"
    by (simp add: run_append g1(1) g'(1))
  moreover have "\<forall>o'\<in>set (off # rest). routines g' o' = Some Finished"
    using g'(3,4) nr by (auto simp: g1(2))
  moreover have "\<forall>o'. o' \<notin> set (off # rest) \<longrightarrow> routines g' o' = routines g o'"
    using g'(4) by (auto simp: g1(2))
  ultimately show ?case using g'(2) by blast
qed

lemma sequentialSchedule_complete:
  assumes "set offsets = set receiveOrder"
  shows "\<exists>g. run rd (sequentialSchedule rd) (startGroup offsets) = Some g \<and>
           waitReturns offsets g"
proof -
  have "\<exists>g'. run rd (concat (map (sequentialSteps rd) receiveOrder)) (startGroup offsets) = Some g' \<and>
           length (received g') = length receiveOrder \<and>
           (\<forall>off\<in>set receiveOrder. routines g' off = Some Finished) \<and>
           (\<forall>off. off \<notin> set receiveOrder \<longrightarrow> routines g' off = routines (startGroup offsets) off)"
    by (rule run_sequential_suffix [of "[]"]) (simp_all add: startGroup_def assms)
  then show ?thesis
    unfolding sequentialSchedule_def waitReturns_def list_all_iff assms by blast
qed

lemma readDataFromMsr_returns:
  assumes "set (msrOffsets m) = set receiveOrder"
  shows "\<exists>out. readDataFromMsr m (sequentialSchedule rd) core rd = Some out"
proof -
  from sequentialSchedule_complete [OF assms, of rd]
  obtain g where "run rd (sequentialSchedule rd) (startGroup (msrOffsets m)) = Some g"
    "waitReturns (msrOffsets m) g" by blast
  then show ?thesis
    by (simp add: readDataFromMsr_def split: option.splits)
qed

subsection \<open>Every execution comes to its end\<close>

lemma receiveOrder_nth:
  "receiveOrder ! 0 = c3StateResidencyLocation"
  "receiveOrder ! 1 = c6StateResidencyLocation"
  "receiveOrder ! Suc 0 = c6StateResidencyLocation"
  "receiveOrder ! 2 = c7StateResidencyLocation"
  "receiveOrder ! 3 = maximumFrequencyClockCountLocation"
  "receiveOrder ! 4 = actualFrequencyClockCountLocation"
  "receiveOrder ! 5 = timestampCounterLocation"
  "receiveOrder ! 6 = throttleTemperatureLocation"
  "receiveOrder ! 7 = temperatureLocation"
  "length receiveOrder = 8"
  by (simp_all add: receiveOrder_def)

lemma weight_update:
  assumes "off \<in> set offsets" "routines g' = (routines g)(off \<mapsto> r')"
    "routineWeight (Some r') < routineWeight (routines g off)"
  shows "(\<Sum>o'\<in>set offsets. routineWeight (routines g' o')) <
         (\<Sum>o'\<in>set offsets. routineWeight (routines g o'))"
proof -
  have f: "finite (set offsets)" by simp
  have 1: "(\<Sum>o'\<in>set offsets. routineWeight (routines g' o')) =
      routineWeight (Some r') + (\<Sum>o'\<in>set offsets - {off}. routineWeight (routines g' o'))"
    using sum.remove [OF f assms(1), of "\<lambda>o'. routineWeight (routines g' o')"]
    by (simp add: assms(2))
  have 2: "(\<Sum>o'\<in>set offsets. routineWeight (routines g o')) =
      routineWeight (routines g off) + (\<Sum>o'\<in>set offsets - {off}. routineWeight (routines g o'))"
    using sum.remove [OF f assms(1), of "\<lambda>o'. routineWeight (routines g o')"] by simp
  have 3: "(\<Sum>o'\<in>set offsets - {off}. routineWeight (routines g' o')) =
      (\<Sum>o'\<in>set offsets - {off}. routineWeight (routines g o'))"
    by (rule sum.cong) (simp_all add: assms(2))
  show ?thesis unfolding 1 2 3 using assms(3) by simp
qed

lemma step_decreases:
  assumes inv: "groupInv rd offsets g" and st: "step rd a g = Some g'"
  shows "stepsLeft offsets g' < stepsLeft offsets g"
proof (cases a)
  case (Read off)
  note s = step_Read [OF st [unfolded Read]]
  have m: "off \<in> set offsets" using groupInvD(1) [OF inv, of off] s(1) by simp
  have "(\<Sum>o'\<in>set offsets. routineWeight (routines g' o')) <
         (\<Sum>o'\<in>set offsets. routineWeight (routines g o'))"
    by (rule weight_update [OF m s(4)]) (simp add: s(1) routineWeight_def split: sum.splits)
  then show ?thesis by (simp add: stepsLeft_def s(3))
next
  case (CtxDone off)
  note s = step_CtxDone [OF st [unfolded CtxDone]]
  from s(1) obtain v where v: "routines g off = Some (Sending v)" by blast
  have m: "off \<in> set offsets" using groupInvD(1) [OF inv, of off] v by simp
  have "(\<Sum>o'\<in>set offsets. routineWeight (routines g' o')) <
         (\<Sum>o'\<in>set offsets. routineWeight (routines g o'))"
    by (rule weight_update [OF m s(5)]) (simp add: v routineWeight_def)
  then show ?thesis by (simp add: stepsLeft_def s(4))
next
  case (Send off)
  note s = step_Send [OF st [unfolded Send]]
  from s(1) obtain v where v: "routines g off = Some (Sending v)" "received g' = received g @ [v]"
    by blast
  have m: "off \<in> set offsets" using groupInvD(1) [OF inv, of off] v by simp
  have "(\<Sum>o'\<in>set offsets. routineWeight (routines g' o')) <
         (\<Sum>o'\<in>set offsets. routineWeight (routines g o'))"
    by (rule weight_update [OF m s(5)]) (simp add: v routineWeight_def)
  then show ?thesis by (simp add: stepsLeft_def v(2))
next
  case (Exit off)
  note s = step_Exit [OF st [unfolded Exit]]
  from s(1) obtain r where r: "routines g off = Some (Returned r)" by blast
  have m: "off \<in> set offsets" using groupInvD(1) [OF inv, of off] r by simp
  have "(\<Sum>o'\<in>set offsets. routineWeight (routines g' o')) <
         (\<Sum>o'\<in>set offsets. routineWeight (routines g o'))"
    by (rule weight_update [OF m s(3)]) (simp add: r routineWeight_def)
  then show ?thesis by (simp add: stepsLeft_def s(2))
next
  case RecvClosed
  note s = step_RecvClosed [OF st [unfolded RecvClosed]]
  show ?thesis using s(1) by (simp add: stepsLeft_def s(4,5))
qed

lemma run_length:
  "groupInv rd offsets g \<Longrightarrow> run rd sched g = Some g' \<Longrightarrow>
   length sched + stepsLeft offsets g' \<le> stepsLeft offsets g"
proof (induction sched arbitrary: g)
  case Nil
  then show ?case by simp
next
  case (Cons a sched)
  from Cons.prems(2) obtain g1 where g1: "step rd a g = Some g1" "run rd sched g1 = Some g'"
    by (auto split: option.splits)
  from Cons.IH [OF groupInv_step [OF Cons.prems(1) g1(1)] g1(2)]
    step_decreases [OF Cons.prems(1) g1(1)]
  show ?case by simp
qed

lemma stepsLeft_start:
  "set offsets = set receiveOrder \<Longrightarrow> stepsLeft offsets (startGroup offsets) = 32"
proof -
  assume a: "set offsets = set receiveOrder"
  have "(\<Sum>off\<in>set offsets. routineWeight (routines (startGroup offsets) off)) =
        (\<Sum>off\<in>set offsets. 3)"
    by (rule sum.cong) (simp_all add: startGroup_def routineWeight_def)
  also have "\<dots> = 3 * card (set receiveOrder)" by (simp add: a)
  also have "card (set receiveOrder) = length receiveOrder"
    by (rule distinct_card [OF distinct_receiveOrder])
  finally show ?thesis by (simp add: stepsLeft_def startGroup_def receiveOrder_nth)
qed

lemma mainInv_start: "mainInv offsets (startGroup offsets)"
  by (simp add: mainInv_def startGroup_def)

lemma mainInv_step:
  assumes inv: "mainInv offsets g" and st: "step rd a g = Some g'"
  shows "mainInv offsets g'"
proof -
  have d1: "\<And>off. off \<in> set offsets \<Longrightarrow> routines g off \<noteq> None"
    and d2: "\<And>i. i < length (received g) \<Longrightarrow>
        (\<exists>r. routines g (receiveOrder ! i) = Some (Returned r)) \<or>
        routines g (receiveOrder ! i) = Some Finished"
    using inv unfolding mainInv_def by blast+
  show ?thesis
  proof (cases a)
    case (Read off)
    note s = step_Read [OF st [unfolded Read]]
    show ?thesis unfolding mainInv_def
    proof (intro conjI ballI allI impI)
      fix o' assume "o' \<in> set offsets"
      then show "routines g' o' \<noteq> None" using d1 by (simp add: s(4))
    next
      fix i assume "i < length (received g')"
      then have "i < length (received g)" by (simp add: s(3))
      from d2 [OF this] s(1) show "(\<exists>r. routines g' (receiveOrder ! i) = Some (Returned r)) \<or>
        routines g' (receiveOrder ! i) = Some Finished"
        by (auto simp: s(4))
    qed
  next
    case (CtxDone off)
    note s = step_CtxDone [OF st [unfolded CtxDone]]
    show ?thesis unfolding mainInv_def
    proof (intro conjI ballI allI impI)
      fix o' assume "o' \<in> set offsets"
      then show "routines g' o' \<noteq> None" using d1 by (simp add: s(5))
    next
      fix i assume "i < length (received g')"
      then have "i < length (received g)" by (simp add: s(4))
      from d2 [OF this] show "(\<exists>r. routines g' (receiveOrder ! i) = Some (Returned r)) \<or>
        routines g' (receiveOrder ! i) = Some Finished"
        by (auto simp: s(5))
    qed
  next
    case (Send off)
    note s = step_Send [OF st [unfolded Send]]
    from s(1) obtain v where v: "routines g off = Some (Sending v)" "received g' = received g @ [v]"
      by blast
    show ?thesis unfolding mainInv_def
    proof (intro conjI ballI allI impI)
      fix o' assume "o' \<in> set offsets"
      then show "routines g' o' \<noteq> None" using d1 by (simp add: s(5))
    next
      fix i assume i: "i < length (received g')"
      show "(\<exists>r. routines g' (receiveOrder ! i) = Some (Returned r)) \<or>
        routines g' (receiveOrder ! i) = Some Finished"
      proof (cases "i < length (received g)")
        case True
        from d2 [OF True] show ?thesis by (auto simp: s(5))
      next
        case False
        with i have "i = length (received g)" by (simp add: v(2))
        then show ?thesis using s(3) by (simp add: s(5))
      qed
    qed
  next
    case (Exit off)
    note s = step_Exit [OF st [unfolded Exit]]
    show ?thesis unfolding mainInv_def
    proof (intro conjI ballI allI impI)
      fix o' assume "o' \<in> set offsets"
      then show "routines g' o' \<noteq> None" using d1 by (simp add: s(3))
    next
      fix i assume "i < length (received g')"
      then have "i < length (received g)" by (simp add: s(2))
      from d2 [OF this] show "(\<exists>r. routines g' (receiveOrder ! i) = Some (Returned r)) \<or>
        routines g' (receiveOrder ! i) = Some Finished"
        by (auto simp: s(3))
    qed
  next
    case RecvClosed
    note s = step_RecvClosed [OF st [unfolded RecvClosed]]
    show ?thesis unfolding mainInv_def
    proof (intro conjI ballI allI impI)
      fix o' assume "o' \<in> set offsets"
      then show "routines g' o' \<noteq> None" using d1 by (simp add: s(5))
    next
      fix i assume i: "i < length (received g')"
      show "(\<exists>r. routines g' (receiveOrder ! i) = Some (Returned r)) \<or>
        routines g' (receiveOrder ! i) = Some Finished"
      proof (cases "i < length (received g)")
        case True
        from d2 [OF True] show ?thesis by (simp add: s(5))
      next
        case False
        with i have "i = length (received g)" by (simp add: s(4))
        then show ?thesis using s(2) by (simp add: s(5))
      qed
    qed
  qed
qed

lemma progress:
  assumes inv: "mainInv offsets g" and len: "length (received g) \<le> length receiveOrder"
    and offs: "set offsets = set receiveOrder"
    and nw: "\<not> waitReturns offsets g"
  shows "\<exists>a g'. step rd a g = Some g'"
proof -
  have d1: "\<And>off. off \<in> set offsets \<Longrightarrow> routines g off \<noteq> None"
    and d2: "\<And>i. i < length (received g) \<Longrightarrow>
        (\<exists>r. routines g (receiveOrder ! i) = Some (Returned r)) \<or>
        routines g (receiveOrder ! i) = Some Finished"
    using inv unfolding mainInv_def by blast+
  show ?thesis
  proof (cases "length (received g) < length receiveOrder")
    case True
    let ?off = "receiveOrder ! length (received g)"
    have "?off \<in> set offsets" using True offs by simp
    from d1 [OF this] obtain r where r: "routines g ?off = Some r" by auto
    show ?thesis
    proof (cases r)
      case Reading
      then have "step rd (Read ?off) g \<noteq> None" using r by (simp split: sum.splits)
      then show ?thesis by blast
    next
      case (Sending v)
      then have "step rd (Send ?off) g \<noteq> None" using r True by simp
      then show ?thesis by blast
    next
      case (Returned e)
      then have "step rd RecvClosed g \<noteq> None" using r True by simp
      then show ?thesis by blast
    next
      case Finished
      then have "step rd RecvClosed g \<noteq> None" using r True by simp
      then show ?thesis by blast
    qed
  next
    case False
    with len have full: "length (received g) = length receiveOrder" by simp
    with nw obtain off where off: "off \<in> set offsets" "routines g off \<noteq> Some Finished"
      by (auto simp: waitReturns_def list_all_iff)
    from d1 [OF off(1)] obtain r where r: "routines g off = Some r" by auto
    from off(1) offs obtain i where i: "i < length receiveOrder" "receiveOrder ! i = off"
      by (auto simp: in_set_conv_nth)
    from d2 [of i] i full have cl: "(\<exists>e. routines g off = Some (Returned e)) \<or>
        routines g off = Some Finished" by simp
    with off(2) obtain e where "routines g off = Some (Returned e)" by blast
    then have "step rd (Exit off) g \<noteq> None" by simp
    then show ?thesis by blast
  qed
qed

lemma run_completes:
  assumes "groupInv rd offsets g" "mainInv offsets g" "set offsets = set receiveOrder"
  shows "\<exists>sched g'. run rd sched g = Some g' \<and> waitReturns offsets g'"
  using assms(1,2)
proof (induction "stepsLeft offsets g" arbitrary: g rule: less_induct)
  case less
  show ?case
  proof (cases "waitReturns offsets g")
    case True
    then have "run rd [] g = Some g \<and> waitReturns offsets g" by simp
    then show ?thesis by blast
  next
    case False
    from progress [OF less.prems(2) groupInvD(2) [OF less.prems(1)] assms(3) False, of rd]
    obtain a g1 where g1: "step rd a g = Some g1" by blast
    from less.hyps [OF step_decreases [OF less.prems(1) g1]
        groupInv_step [OF less.prems(1) g1] mainInv_step [OF less.prems(2) g1]]
    obtain sched g' where "run rd sched g1 = Some g'" "waitReturns offsets g'" by blast
    then have "run rd (a # sched) g = Some g' \<and> waitReturns offsets g'" using g1 by simp
    then show ?thesis by blast
  qed
qed

lemma mainInv_run:
  "mainInv offsets g \<Longrightarrow> run rd sched g = Some g' \<Longrightarrow> mainInv offsets g'"
proof (induction sched arbitrary: g)
  case Nil
  then show ?case by simp
next
  case (Cons a sched)
  from Cons.prems(2) obtain g1 where g1: "step rd a g = Some g1" "run rd sched g1 = Some g'"
    by (auto split: option.splits)
  from Cons.IH [OF mainInv_step [OF Cons.prems(1) g1(1)] g1(2)] show ?case .
qed

lemma readDataFromMsr_always_returns:
  assumes offs: "set (msrOffsets m) = set receiveOrder"
    and pre: "run rd sched (startGroup (msrOffsets m)) = Some g"
  shows "length sched \<le> 32 \<and> (\<exists>sched' out. readDataFromMsr m (sched @ sched') core rd = Some out)"
proof -
  have gi: "groupInv rd (msrOffsets m) g" by (rule groupInv_run [OF groupInv_start pre])
  have mi: "mainInv (msrOffsets m) g" by (rule mainInv_run [OF mainInv_start pre])
  from run_length [OF groupInv_start pre] stepsLeft_start [OF offs]
  have 1: "length sched \<le> 32" by simp
  from run_completes [OF gi mi offs] obtain sched' g' where
    c: "run rd sched' g = Some g'" "waitReturns (msrOffsets m) g'" by blast
  have "run rd (sched @ sched') (startGroup (msrOffsets m)) = Some g'"
    by (simp add: run_append pre c(1))
  with c(2) have "\<exists>out. readDataFromMsr m (sched @ sched') core rd = Some out"
    by (simp add: readDataFromMsr_def split: option.splits)
  with 1 show ?thesis by blast
qed

subsection \<open>A refresh (openAndReadMsr)\<close>

lemma readDataFromMsr_SomeD:
  assumes "readDataFromMsr m sched core rd = Some out"
  obtains g where "run rd sched (startGroup (msrOffsets m)) = Some g"
    "groupInv rd (msrOffsets m) g" "waitReturns (msrOffsets m) g"
    "out = (case firstErr g of
              Some err \<Rightarrow> Returns (Some (ErrReceivedDuringReading err), m)
            | None \<Rightarrow>
               (case cpuCoresData m core of
                  None \<Rightarrow> Panics
                | Some d \<Rightarrow>
                   Returns (None,
                     m\<lparr>cpuCoresData := (cpuCoresData m)(core \<mapsto> storeValues d (received g))\<rparr>)))"
proof -
  from assms obtain g where g: "run rd sched (startGroup (msrOffsets m)) = Some g"
    by (auto simp: readDataFromMsr_def split: option.splits)
  have inv: "groupInv rd (msrOffsets m) g"
    by (rule groupInv_run [OF groupInv_start g])
  from assms g have w: "waitReturns (msrOffsets m) g"
    by (auto simp: readDataFromMsr_def split: if_splits)
  from assms g w have "out = (case firstErr g of
              Some err \<Rightarrow> Returns (Some (ErrReceivedDuringReading err), m)
            | None \<Rightarrow>
               (case cpuCoresData m core of
                  None \<Rightarrow> Panics
                | Some d \<Rightarrow>
                   Returns (None,
                     m\<lparr>cpuCoresData := (cpuCoresData m)(core \<mapsto> storeValues d (received g))\<rparr>)))"
    by (auto simp: readDataFromMsr_def split: option.splits)
  with g inv w show ?thesis by (rule that)
qed

lemma readDataFromMsr_failure:
  assumes "off \<in> set (msrOffsets m)" "rd off = Inl e"
    and "readDataFromMsr m sched core rd = Some out"
  shows "\<exists>off' e'. off' \<in> set (msrOffsets m) \<and> rd off' = Inl e' \<and>
           out = Returns (Some (ErrReceivedDuringReading (ErrReadingMSRFile e')), m)"
proof -
  from assms(3) obtain g where g: "groupInv rd (msrOffsets m) g" "waitReturns (msrOffsets m) g"
    "out = (case firstErr g of
              Some err \<Rightarrow> Returns (Some (ErrReceivedDuringReading err), m)
            | None \<Rightarrow>
               (case cpuCoresData m core of
                  None \<Rightarrow> Panics
                | Some d \<Rightarrow>
                   Returns (None,
                     m\<lparr>cpuCoresData := (cpuCoresData m)(core \<mapsto> storeValues d (received g))\<rparr>)))"
    by (rule readDataFromMsr_SomeD)
  from final_error [OF g(1,2) assms(1,2)] obtain off' e' where
    "off' \<in> set (msrOffsets m)" "rd off' = Inl e'" "firstErr g = Some (ErrReadingMSRFile e')"
    by blast
  then show ?thesis using g(3) by auto
qed

lemma readDataFromMsr_success:
  assumes "readDataFromMsr m sched core rd = Some (Returns (None, m'))"
  shows "\<exists>d vs. cpuCoresData m core = Some d \<and> length vs = length receiveOrder \<and>
           (\<forall>i < length receiveOrder. rd (receiveOrder ! i) = Inr (vs ! i)) \<and>
           (\<forall>off\<in>set (msrOffsets m). \<exists>v. rd off = Inr v) \<and>
           m' = m\<lparr>cpuCoresData := (cpuCoresData m)(core \<mapsto> storeValues d vs)\<rparr>"
proof -
  from assms obtain g where g: "groupInv rd (msrOffsets m) g" "waitReturns (msrOffsets m) g"
    "Returns (None, m') = (case firstErr g of
              Some err \<Rightarrow> Returns (Some (ErrReceivedDuringReading err), m)
            | None \<Rightarrow>
               (case cpuCoresData m core of
                  None \<Rightarrow> Panics
                | Some d \<Rightarrow>
                   Returns (None,
                     m\<lparr>cpuCoresData := (cpuCoresData m)(core \<mapsto> storeValues d (received g))\<rparr>)))"
    by (rule readDataFromMsr_SomeD)
  from g(3) have ok: "firstErr g = None" by (auto split: option.splits)
  from g(3) ok obtain d where d: "cpuCoresData m core = Some d"
    "m' = m\<lparr>cpuCoresData := (cpuCoresData m)(core \<mapsto> storeValues d (received g))\<rparr>"
    by (auto split: option.splits)
  from final_ok [OF g(1,2) ok] waitReturnsD(1) [OF g(2)] d show ?thesis
    by (intro exI [of _ d] exI [of _ "received g"]) simp
qed

lemma openAndReadMsr_readD:
  assumes "checkFile fs (msrPath core) = None" "osOpen fs (msrPath core) = Inr rd"
  shows "openAndReadMsr m fs sched core =
     (case readDataFromMsr m sched core rd of
        None \<Rightarrow> None
      | Some Panics \<Rightarrow> Some Panics
      | Some (Returns (Some err, m')) \<Rightarrow> Some (Returns (Some (ErrReadingDataFromMSR core err), m'))
      | Some (Returns (None, m')) \<Rightarrow> Some (Returns (None, m')))"
  by (simp add: openAndReadMsr_def assms)

text \<open>
  C1. Let the read of one offset \<open>off\<close> of \<open>msrOffsets\<close> fail on the MSR file of the core.
  Then every execution of openAndReadMsr, and of readDataFromMsr, returns an error, which
  wraps the error of a failed read, and leaves the service as it was before the call: no
  field of the \<open>msrData\<close> of the core (or of any other core) is changed. With the 8 offsets
  of the service the call does return: there is such an execution, no execution takes more
  than 32 steps, and every execution that has begun can be continued to the return of the
  call.
\<close>

theorem openAndReadMsr_failure_atomic:
  assumes off: "off \<in> set (msrOffsets m)" "rd off = Inl e"
    and fs: "checkFile fs (msrPath core) = None" "osOpen fs (msrPath core) = Inr rd"
  shows
   "(\<forall>sched out. openAndReadMsr m fs sched core = Some out \<longrightarrow>
       (\<exists>off' e'. off' \<in> set (msrOffsets m) \<and> rd off' = Inl e' \<and>
          out = Returns (Some (ErrReadingDataFromMSR core
                  (ErrReceivedDuringReading (ErrReadingMSRFile e'))), m))) \<and>
    (\<forall>sched out. readDataFromMsr m sched core rd = Some out \<longrightarrow>
       (\<exists>off' e'. off' \<in> set (msrOffsets m) \<and> rd off' = Inl e' \<and>
          out = Returns (Some (ErrReceivedDuringReading (ErrReadingMSRFile e')), m))) \<and>
    (set (msrOffsets m) = set receiveOrder \<longrightarrow>
       (\<exists>out. openAndReadMsr m fs (sequentialSchedule rd) core = Some out)) \<and>
    (set (msrOffsets m) = set receiveOrder \<longrightarrow>
       (\<forall>sched g. run rd sched (startGroup (msrOffsets m)) = Some g \<longrightarrow>
          length sched \<le> 32 \<and>
          (\<exists>sched' out. openAndReadMsr m fs (sched @ sched') core = Some out)))"
proof (intro conjI allI impI)
  fix sched g
  assume o: "set (msrOffsets m) = set receiveOrder"
    and r: "run rd sched (startGroup (msrOffsets m)) = Some g"
  from readDataFromMsr_always_returns [OF o r, of core]
  obtain sched' out' where l: "length sched \<le> 32"
    and x: "readDataFromMsr m (sched @ sched') core rd = Some out'" by blast
  from x have "\<exists>out. openAndReadMsr m fs (sched @ sched') core = Some out"
    by (cases out') (auto simp: openAndReadMsr_readD [OF fs] split: option.splits)
  then show "\<exists>sched' out. openAndReadMsr m fs (sched @ sched') core = Some out" by blast
  from l show "length sched \<le> 32" .
next
  fix sched out
  assume a: "openAndReadMsr m fs sched core = Some out"
  then obtain out' where o: "readDataFromMsr m sched core rd = Some out'"
    by (auto simp: openAndReadMsr_readD [OF fs] split: option.splits)
  from readDataFromMsr_failure [OF off o] obtain off' e' where
    e: "off' \<in> set (msrOffsets m)" "rd off' = Inl e'"
    "out' = Returns (Some (ErrReceivedDuringReading (ErrReadingMSRFile e')), m)"
    by blast
  from a o e(3) have "out = Returns (Some (ErrReadingDataFromMSR core
                  (ErrReceivedDuringReading (ErrReadingMSRFile e'))), m)"
    by (simp add: openAndReadMsr_readD [OF fs])
  with e(1,2) show "\<exists>off' e'. off' \<in> set (msrOffsets m) \<and> rd off' = Inl e' \<and>
          out = Returns (Some (ErrReadingDataFromMSR core
                  (ErrReceivedDuringReading (ErrReadingMSRFile e'))), m)"
    by blast
next
  fix sched out
  assume "readDataFromMsr m sched core rd = Some out"
  from readDataFromMsr_failure [OF off this]
  show "\<exists>off' e'. off' \<in> set (msrOffsets m) \<and> rd off' = Inl e' \<and>
          out = Returns (Some (ErrReceivedDuringReading (ErrReadingMSRFile e')), m)" .
next
  assume "set (msrOffsets m) = set receiveOrder"
  from readDataFromMsr_returns [OF this, of rd core]
  obtain out' where "readDataFromMsr m (sequentialSchedule rd) core rd = Some out'" by blast
  then show "\<exists>out. openAndReadMsr m fs (sequentialSchedule rd) core = Some out"
    by (cases out') (auto simp: openAndReadMsr_readD [OF fs] split: option.splits)
qed

lemmas location_defs =
  c3StateResidencyLocation_def c6StateResidencyLocation_def c7StateResidencyLocation_def
  maximumFrequencyClockCountLocation_def actualFrequencyClockCountLocation_def
  timestampCounterLocation_def throttleTemperatureLocation_def temperatureLocation_def

lemma exampleService_eq:
  "exampleService =
     \<lparr>cpuCoresData = [''0'' \<mapsto> newMsrData], cpuCores = Some [0], msrOffsets = receiveOrder\<rparr>"
  by (simp add: exampleService_def newMsrServiceWithFs_def setCPUCores_def parseCores_def
      parseIntRanges_def removeDuplicateValues_def removeDuplicateStep_def sliceOf_def
      parser_defs Base_def TrimPrefix_def AtoiValue_def receiveOrder_def)

lemma exampleFs_simps:
  "checkFile (exampleFs rd) path = None" "osOpen (exampleFs rd) path = Inr rd"
  by (simp_all add: exampleFs_def)

theorem openAndReadMsr_failure_atomic_witness:
  "openAndReadMsr exampleService (exampleFs failingReader) interleavedSchedule ''0'' =
     Some (Returns (Some (ErrReadingDataFromMSR ''0''
             (ErrReceivedDuringReading (ErrReadingMSRFile (ErrExternal ''read'')))),
           exampleService)) \<and>
   (\<exists>out. openAndReadMsr exampleService (exampleFs failingReader)
            (sequentialSchedule failingReader) ''0'' = Some out)"
proof -
  have off: "actualFrequencyClockCountLocation \<in> set (msrOffsets exampleService)"
    by (simp add: exampleService_eq receiveOrder_def)
  have rd: "failingReader actualFrequencyClockCountLocation = Inl (ErrExternal ''read'')"
    by (simp add: failingReader_def)
  have only: "e' = ErrExternal ''read''" if "failingReader off' = Inl e'" for off' e'
    using that by (simp add: failingReader_def exampleReader_def split: if_splits)
  have run: "\<exists>out. openAndReadMsr exampleService (exampleFs failingReader) interleavedSchedule ''0''
      = Some out"
    by (simp add: openAndReadMsr_def readDataFromMsr_def exampleFs_simps exampleService_eq
        interleavedSchedule_def startGroup_def waitReturns_def receiveOrder_def failingReader_def
        exampleReader_def location_defs)
  note T = openAndReadMsr_failure_atomic [where off = actualFrequencyClockCountLocation
      and m = exampleService and rd = failingReader and fs = "exampleFs failingReader"
      and core = "''0''", OF off rd exampleFs_simps(1) exampleFs_simps(2)]
  from run T only have 1:
    "openAndReadMsr exampleService (exampleFs failingReader) interleavedSchedule ''0'' =
     Some (Returns (Some (ErrReadingDataFromMSR ''0''
             (ErrReceivedDuringReading (ErrReadingMSRFile (ErrExternal ''read'')))),
           exampleService))"
    by blast
  have "set (msrOffsets exampleService) = set receiveOrder"
    by (simp add: exampleService_eq)
  with T have 2: "\<exists>out. openAndReadMsr exampleService (exampleFs failingReader)
            (sequentialSchedule failingReader) ''0'' = Some out"
    by blast
  from 1 2 show ?thesis by blast
qed

subsection \<open>The values a refresh stores\<close>

lemma len64: "LENGTH(64) = 64"
  by simp

lemma unat_sub_mod:
  "unat (v - c :: u64) = (unat v + 2 ^ 64 - unat c) mod 2 ^ 64"
proof -
  have b: "unat v < 2 ^ 64" "unat c < 2 ^ 64"
    using unsigned_less [of v, where 'a = nat] unsigned_less [of c, where 'a = nat] by simp_all
  show ?thesis
  proof (cases "unat c \<le> unat v")
    case True
    then have "(unat v + 2 ^ 64 - unat c) mod 2 ^ 64 = ((unat v - unat c) + 2 ^ 64) mod 2 ^ 64"
      by simp
    also have "\<dots> = (unat v - unat c) mod 2 ^ 64" by simp
    also have "\<dots> = unat v - unat c" using b by simp
    finally show ?thesis using True by (simp only: unat_sub_if' if_True len64 [symmetric])
  next
    case False
    then have "unat v + 2 ^ 64 - unat c < 2 ^ 64" using b by simp
    then show ?thesis using False by (simp add: unat_sub_if')
  qed
qed

lemma openAndReadMsr_success:
  assumes "openAndReadMsr m fs sched core = Some (Returns (None, m'))"
  shows "\<exists>d vs rd. checkFile fs (msrPath core) = None \<and> osOpen fs (msrPath core) = Inr rd \<and>
           cpuCoresData m core = Some d \<and> length vs = length receiveOrder \<and>
           (\<forall>i < length receiveOrder. rd (receiveOrder ! i) = Inr (vs ! i)) \<and>
           (\<forall>off\<in>set (msrOffsets m). \<exists>v. rd off = Inr v) \<and>
           m' = m\<lparr>cpuCoresData := (cpuCoresData m)(core \<mapsto> storeValues d vs)\<rparr>"
proof -
  from assms have c: "checkFile fs (msrPath core) = None"
    by (auto simp: openAndReadMsr_def Let_def split: option.splits)
  from assms c obtain rd where rd: "osOpen fs (msrPath core) = Inr rd"
    by (auto simp: openAndReadMsr_def Let_def split: sum.splits)
  from assms have "readDataFromMsr m sched core rd = Some (Returns (None, m'))"
    by (auto simp: openAndReadMsr_readD [OF c rd] split: option.splits outcome.splits)
  from readDataFromMsr_success [OF this] c rd show ?thesis by blast
qed

lemma setCPUCoresLoop_new:
  "(\<And>k d. dat k = Some d \<Longrightarrow> d = newMsrData) \<Longrightarrow>
   setCPUCoresLoop cs dat paths k = Some d \<Longrightarrow> d = newMsrData"
proof (induction paths arbitrary: dat)
  case Nil
  then show ?case by simp
next
  case (Cons p paths)
  let ?core = "TrimPrefix (Base p) ''cpu''"
  have upd: "\<And>k d. (dat(?core \<mapsto> newMsrData)) k = Some d \<Longrightarrow> d = newMsrData"
    using Cons.prems(1) by (auto split: if_splits)
  from Cons.prems(2) have
    "setCPUCoresLoop cs dat paths k = Some d \<or>
     setCPUCoresLoop cs (dat(?core \<mapsto> newMsrData)) paths k = Some d"
    by (auto simp: Let_def split: option.splits if_splits)
  then show ?case
    using Cons.IH [of dat] Cons.IH [of "dat(?core \<mapsto> newMsrData)"] Cons.prems(1) upd
    by blast
qed

lemma newMsrServiceWithFs_new:
  "cpuCoresData (fst (newMsrServiceWithFs cores paths)) k = Some d \<Longrightarrow> d = newMsrData"
  using setCPUCoresLoop_new [of Map.empty]
  by (auto simp: newMsrServiceWithFs_def setCPUCores_def Let_def
      split: prod.splits sum.splits if_splits)

lemma newMsrServiceWithFs_offsets:
  "msrOffsets (fst (newMsrServiceWithFs cores paths)) = receiveOrder"
  by (simp add: newMsrServiceWithFs_def receiveOrder_def split: prod.splits)

text \<open>
  C2. After a successful refresh of a core, for each of the six counter registers (C3,
  C6, C7, mperf, aperf, time stamp counter): the current field holds the raw value \<open>v\<close>
  that was read at the register's offset, and the delta field holds \<open>v\<close> minus the
  previous current value as 64-bit words, that is \<open>(v + 2^64 - previous) mod 2^64\<close>:
  nothing is clamped and a wrap-around is no error. The \<open>msrData\<close> of a service made by
  newMsrServiceWithFs is all zero, so the first delta is the first raw value.
\<close>

theorem openAndReadMsr_deltas:
  assumes "openAndReadMsr m fs sched core = Some (Returns (None, m'))"
  shows "\<exists>d d' rd.
     cpuCoresData m core = Some d \<and> cpuCoresData m' core = Some d' \<and>
     osOpen fs (msrPath core) = Inr rd \<and>
     (\<forall>(loc, cur, delta)\<in>set counters.
        \<exists>v. rd loc = Inr v \<and> cur d' = v \<and> delta d' = v - cur d \<and>
            unat (delta d') = (unat v + 2 ^ 64 - unat (cur d)) mod 2 ^ 64 \<and>
            (d = newMsrData \<longrightarrow> delta d' = v)) \<and>
     (\<forall>cores paths. m = fst (newMsrServiceWithFs cores paths) \<longrightarrow> d = newMsrData)"
proof -
  from openAndReadMsr_success [OF assms] obtain d vs rd where h:
    "osOpen fs (msrPath core) = Inr rd" "cpuCoresData m core = Some d"
    "\<forall>i < length receiveOrder. rd (receiveOrder ! i) = Inr (vs ! i)"
    "m' = m\<lparr>cpuCoresData := (cpuCoresData m)(core \<mapsto> storeValues d vs)\<rparr>"
    by blast
  have r: "rd c3StateResidencyLocation = Inr (vs ! 0)"
    "rd c6StateResidencyLocation = Inr (vs ! 1)"
    "rd c7StateResidencyLocation = Inr (vs ! 2)"
    "rd maximumFrequencyClockCountLocation = Inr (vs ! 3)"
    "rd actualFrequencyClockCountLocation = Inr (vs ! 4)"
    "rd timestampCounterLocation = Inr (vs ! 5)"
    using h(3) [rule_format, of 0] h(3) [rule_format, of 1] h(3) [rule_format, of 2]
      h(3) [rule_format, of 3] h(3) [rule_format, of 4] h(3) [rule_format, of 5]
    by (simp_all add: receiveOrder_nth)
  have d': "cpuCoresData m' core = Some (storeValues d vs)" by (simp add: h(4))
  have c: "\<forall>(loc, cur, delta)\<in>set counters.
        \<exists>v. rd loc = Inr v \<and> cur (storeValues d vs) = v \<and> delta (storeValues d vs) = v - cur d \<and>
            unat (delta (storeValues d vs)) = (unat v + 2 ^ 64 - unat (cur d)) mod 2 ^ 64 \<and>
            (d = newMsrData \<longrightarrow> delta (storeValues d vs) = v)"
    by (simp add: counters_def r storeValues_def Let_def unat_sub_mod newMsrData_def)
  have n: "\<forall>cores paths. m = fst (newMsrServiceWithFs cores paths) \<longrightarrow> d = newMsrData"
    using h(2) newMsrServiceWithFs_new by blast
  from h(1,2) d' c n show ?thesis by blast
qed

lemma temperature_bits:
  "bit (drop_bit 16 v AND 0xFF :: u64) i \<longleftrightarrow> i < 8 \<and> bit v (16 + i)"
  "bit (drop_bit 16 v AND 0x7F :: u64) i \<longleftrightarrow> i < 7 \<and> bit v (16 + i)"
proof -
  have m: "(0xFF :: u64) = mask 8" "(0x7F :: u64) = mask 7"
    by (simp_all add: mask_eq_exp_minus_1)
  show "bit (drop_bit 16 v AND 0xFF :: u64) i \<longleftrightarrow> i < 8 \<and> bit v (16 + i)"
    unfolding m by (auto simp: bit_and_iff bit_drop_bit_eq bit_mask_iff)
  show "bit (drop_bit 16 v AND 0x7F :: u64) i \<longleftrightarrow> i < 7 \<and> bit v (16 + i)"
    unfolding m by (auto simp: bit_and_iff bit_drop_bit_eq bit_mask_iff)
qed

text \<open>
  C8. After a successful refresh of a core, \<open>throttleTemp\<close> is \<open>(v >> 16) & 0xFF\<close> for
  the raw value \<open>v\<close> read at the throttle temperature offset, that is bits 23:16 of \<open>v\<close>,
  and \<open>temp\<close> is \<open>(v >> 16) & 0x7F\<close> for the raw value read at the temperature offset,
  bits 22:16. Both depend on the raw value only, not on what was stored before, and
  \<open>msrData\<close> has no delta field for them.
\<close>

theorem openAndReadMsr_temperatures:
  assumes "openAndReadMsr m fs sched core = Some (Returns (None, m'))"
  shows "\<exists>d' rd vThrottle vTemp.
     cpuCoresData m' core = Some d' \<and> osOpen fs (msrPath core) = Inr rd \<and>
     rd throttleTemperatureLocation = Inr vThrottle \<and> rd temperatureLocation = Inr vTemp \<and>
     throttleTemp d' = drop_bit 16 vThrottle AND 0xFF \<and>
     temp d' = drop_bit 16 vTemp AND 0x7F \<and>
     (\<forall>i. bit (throttleTemp d') i \<longleftrightarrow> i < 8 \<and> bit vThrottle (16 + i)) \<and>
     (\<forall>i. bit (temp d') i \<longleftrightarrow> i < 7 \<and> bit vTemp (16 + i))"
proof -
  from openAndReadMsr_success [OF assms] obtain d vs rd where h:
    "osOpen fs (msrPath core) = Inr rd" "cpuCoresData m core = Some d"
    "\<forall>i < length receiveOrder. rd (receiveOrder ! i) = Inr (vs ! i)"
    "m' = m\<lparr>cpuCoresData := (cpuCoresData m)(core \<mapsto> storeValues d vs)\<rparr>"
    by blast
  have r: "rd throttleTemperatureLocation = Inr (vs ! 6)" "rd temperatureLocation = Inr (vs ! 7)"
    using h(3) [rule_format, of 6] h(3) [rule_format, of 7]
    by (simp_all add: receiveOrder_nth)
  have d': "cpuCoresData m' core = Some (storeValues d vs)" by (simp add: h(4))
  have t: "throttleTemp (storeValues d vs) = drop_bit 16 (vs ! 6) AND 0xFF"
    "temp (storeValues d vs) = drop_bit 16 (vs ! 7) AND 0x7F"
    by (simp_all add: storeValues_def Let_def)
  show ?thesis
    using h(1) d' r t temperature_bits by (intro exI [of _ "storeValues d vs"] exI [of _ rd]
        exI [of _ "vs ! 6"] exI [of _ "vs ! 7"]) simp
qed


lemmas run_defs =
  openAndReadMsr_def readDataFromMsr_def exampleFs_simps startGroup_def waitReturns_def
  receiveOrder_def sequentialSchedule_def sequentialSteps_def location_defs msrPath_def

theorem openAndReadMsr_deltas_witness:
  "(\<exists>m' d'. openAndReadMsr wrappedService (exampleFs exampleReader)
               (sequentialSchedule exampleReader) ''0'' = Some (Returns (None, m')) \<and>
            cpuCoresData m' ''0'' = Some d' \<and> c3 d' = 3 \<and>
            c3Delta d' = 18446744073709551614 \<and>
            unat (c3Delta d') = (3 + 2 ^ 64 - 5) mod 2 ^ 64) \<and>
   (\<exists>m' d'. openAndReadMsr exampleService (exampleFs exampleReader)
               (sequentialSchedule exampleReader) ''0'' = Some (Returns (None, m')) \<and>
            cpuCoresData m' ''0'' = Some d' \<and> c3 d' = 3 \<and> c3Delta d' = 3)"
proof -
  have c3: "(c3StateResidencyLocation, c3, c3Delta) \<in> set counters"
    by (simp add: counters_def)
  have rd3: "exampleReader c3StateResidencyLocation = Inr 3"
    by (simp add: exampleReader_def location_defs)
  have "\<exists>m'. openAndReadMsr wrappedService (exampleFs exampleReader)
               (sequentialSchedule exampleReader) ''0'' = Some (Returns (None, m'))"
    by (simp add: run_defs wrappedService_def exampleService_eq exampleReader_def)
  then obtain m1 where m1: "openAndReadMsr wrappedService (exampleFs exampleReader)
               (sequentialSchedule exampleReader) ''0'' = Some (Returns (None, m1))" by blast
  from openAndReadMsr_deltas [OF m1] obtain d d' rd where h:
    "cpuCoresData wrappedService ''0'' = Some d" "cpuCoresData m1 ''0'' = Some d'"
    "osOpen (exampleFs exampleReader) (msrPath ''0'') = Inr rd"
    "\<forall>(loc, cur, delta)\<in>set counters.
        \<exists>v. rd loc = Inr v \<and> cur d' = v \<and> delta d' = v - cur d \<and>
            unat (delta d') = (unat v + 2 ^ 64 - unat (cur d)) mod 2 ^ 64 \<and>
            (d = newMsrData \<longrightarrow> delta d' = v)"
    by blast
  have rd: "rd = exampleReader" using h(3) by (simp add: exampleFs_simps)
  have d: "c3 d = 5" using h(1) by (auto simp: wrappedService_def)
  from h(4) c3 rd3 have "c3 d' = 3 \<and> c3Delta d' = 3 - c3 d \<and>
      unat (c3Delta d') = (unat (3 :: u64) + 2 ^ 64 - unat (c3 d)) mod 2 ^ 64"
    unfolding rd by fastforce
  then have 1: "c3 d' = 3 \<and> c3Delta d' = 18446744073709551614 \<and>
      unat (c3Delta d') = (3 + 2 ^ 64 - 5) mod 2 ^ 64"
    by (simp add: d)
  have "\<exists>m'. openAndReadMsr exampleService (exampleFs exampleReader)
               (sequentialSchedule exampleReader) ''0'' = Some (Returns (None, m'))"
    by (simp add: run_defs exampleService_eq exampleReader_def)
  then obtain m2 where m2: "openAndReadMsr exampleService (exampleFs exampleReader)
               (sequentialSchedule exampleReader) ''0'' = Some (Returns (None, m2))" by blast
  from openAndReadMsr_deltas [OF m2] obtain e e' rd' where k:
    "cpuCoresData exampleService ''0'' = Some e" "cpuCoresData m2 ''0'' = Some e'"
    "osOpen (exampleFs exampleReader) (msrPath ''0'') = Inr rd'"
    "\<forall>(loc, cur, delta)\<in>set counters.
        \<exists>v. rd' loc = Inr v \<and> cur e' = v \<and> delta e' = v - cur e \<and>
            unat (delta e') = (unat v + 2 ^ 64 - unat (cur e)) mod 2 ^ 64 \<and>
            (e = newMsrData \<longrightarrow> delta e' = v)"
    "\<forall>cores paths. exampleService = fst (newMsrServiceWithFs cores paths) \<longrightarrow> e = newMsrData"
    by blast
  have rd': "rd' = exampleReader" using k(3) by (simp add: exampleFs_simps)
  have e: "e = newMsrData" using k(5) [unfolded exampleService_def] by blast
  from k(4) c3 rd3 e have 2: "c3 e' = 3 \<and> c3Delta e' = 3"
    unfolding rd' by fastforce
  from m1 h(2) 1 m2 k(2) 2 show ?thesis by blast
qed

theorem openAndReadMsr_temperatures_witness:
  "\<exists>m' d'. openAndReadMsr exampleService (exampleFs exampleReader)
              (sequentialSchedule exampleReader) ''0'' = Some (Returns (None, m')) \<and>
           exampleReader throttleTemperatureLocation = Inr 0x00AB1234 \<and>
           exampleReader temperatureLocation = Inr 0x88FF0000 \<and>
           cpuCoresData m' ''0'' = Some d' \<and> throttleTemp d' = 0xAB \<and> temp d' = 0x7F"
proof -
  have rdv: "exampleReader throttleTemperatureLocation = Inr 0x00AB1234"
    "exampleReader temperatureLocation = Inr 0x88FF0000"
    by (simp_all add: exampleReader_def location_defs)
  have "\<exists>m'. openAndReadMsr exampleService (exampleFs exampleReader)
               (sequentialSchedule exampleReader) ''0'' = Some (Returns (None, m'))"
    by (simp add: run_defs exampleService_eq exampleReader_def)
  then obtain m2 where m2: "openAndReadMsr exampleService (exampleFs exampleReader)
               (sequentialSchedule exampleReader) ''0'' = Some (Returns (None, m2))" by blast
  from openAndReadMsr_temperatures [OF m2] obtain d' rd vThrottle vTemp where h:
    "cpuCoresData m2 ''0'' = Some d'" "osOpen (exampleFs exampleReader) (msrPath ''0'') = Inr rd"
    "rd throttleTemperatureLocation = Inr vThrottle" "rd temperatureLocation = Inr vTemp"
    "throttleTemp d' = drop_bit 16 vThrottle AND 0xFF" "temp d' = drop_bit 16 vTemp AND 0x7F"
    by blast
  have rd: "rd = exampleReader" using h(2) by (simp add: exampleFs_simps)
  have v: "vThrottle = 0x00AB1234" "vTemp = 0x88FF0000"
    using h(3,4) rdv unfolding rd by simp_all
  have "throttleTemp d' = 0xAB" "temp d' = 0x7F"
    unfolding h(5,6) v by (simp_all add: drop_bit_eq_div)
  with m2 h(1) rdv show ?thesis by blast
qed

subsection \<open>The availability probe (isMsrLoaded)\<close>

lemma openAndReadMsr_key:
  assumes out: "openAndReadMsr m fs sched core = Some out"
    and key: "cpuCoresData m core \<noteq> None"
  shows "(readable fs m core \<and>
            (\<exists>d'. out = Returns (None, m\<lparr>cpuCoresData := (cpuCoresData m)(core \<mapsto> d')\<rparr>))) \<or>
         (\<not> readable fs m core \<and> (\<exists>err. out = Returns (Some err, m)))"
proof (cases "checkFile fs (msrPath core)")
  case (Some err)
  with out show ?thesis by (auto simp: openAndReadMsr_def readable_def)
next
  case None
  show ?thesis
  proof (cases "osOpen fs (msrPath core)")
    case (Inl err)
    with out None show ?thesis by (auto simp: openAndReadMsr_def readable_def)
  next
    case (Inr rd)
    from out obtain out' where o: "readDataFromMsr m sched core rd = Some out'"
      by (auto simp: openAndReadMsr_readD [OF None Inr] split: option.splits)
    from o obtain g where g: "groupInv rd (msrOffsets m) g" "waitReturns (msrOffsets m) g"
      "out' = (case firstErr g of
              Some err \<Rightarrow> Returns (Some (ErrReceivedDuringReading err), m)
            | None \<Rightarrow>
               (case cpuCoresData m core of
                  None \<Rightarrow> Panics
                | Some d \<Rightarrow>
                   Returns (None,
                     m\<lparr>cpuCoresData := (cpuCoresData m)(core \<mapsto> storeValues d (received g))\<rparr>)))"
      by (rule readDataFromMsr_SomeD)
    show ?thesis
    proof (cases "firstErr g")
      case fe: None
      from final_ok(1) [OF g(1,2) fe] have "readable fs m core"
        by (auto simp: readable_def None Inr list_all_iff)
      moreover from key obtain d where d: "cpuCoresData m core = Some d" by auto
      ultimately show ?thesis
        using out o g(3) fe d by (auto simp: openAndReadMsr_readD [OF None Inr])
    next
      case (Some x)
      from groupInvD(4) [OF g(1) Some] obtain off e where oe: "off \<in> set (msrOffsets m)" "rd off = Inl e"
        by blast
      have "\<not> list_all (\<lambda>off. case rd off of Inl err \<Rightarrow> False | Inr v \<Rightarrow> True) (msrOffsets m)"
        unfolding list_all_iff using oe by (intro notI) (drule bspec [of _ _ off], simp_all)
      then have "\<not> readable fs m core"
        by (simp add: readable_def Inr)
      then show ?thesis
        using out o g(3) Some by (auto simp: openAndReadMsr_readD [OF None Inr])
    qed
  qed
qed

lemma isMsrLoadedLoop_result:
  assumes "isMsrLoadedLoop m fs scheds ks = Some out" "set ks \<subseteq> dom (cpuCoresData m)"
  shows "(out = Returns (False, m) \<and> (\<forall>k\<in>set ks. \<not> readable fs m k)) \<or>
         (\<exists>ks1 core ks2 d'. ks = ks1 @ core # ks2 \<and> (\<forall>k\<in>set ks1. \<not> readable fs m k) \<and>
            readable fs m core \<and>
            out = Returns (True, m\<lparr>cpuCoresData := (cpuCoresData m)(core \<mapsto> d')\<rparr>))"
  using assms
proof (induction ks)
  case Nil
  then show ?case by simp
next
  case (Cons k ks)
  from Cons.prems(1) obtain o1 where o1: "openAndReadMsr m fs (scheds k) k = Some o1"
    by (auto split: option.splits)
  have key: "cpuCoresData m k \<noteq> None" using Cons.prems(2) by auto
  from openAndReadMsr_key [OF o1 key] show ?case
  proof
    assume "readable fs m k \<and>
            (\<exists>d'. o1 = Returns (None, m\<lparr>cpuCoresData := (cpuCoresData m)(k \<mapsto> d')\<rparr>))"
    then obtain d' where r: "readable fs m k"
      "o1 = Returns (None, m\<lparr>cpuCoresData := (cpuCoresData m)(k \<mapsto> d')\<rparr>)" by blast
    from Cons.prems(1) o1 r(2)
    have "out = Returns (True, m\<lparr>cpuCoresData := (cpuCoresData m)(k \<mapsto> d')\<rparr>)" by simp
    with r(1) have "k # ks = [] @ k # ks \<and> (\<forall>k\<in>set []. \<not> readable fs m k) \<and>
            readable fs m k \<and>
            out = Returns (True, m\<lparr>cpuCoresData := (cpuCoresData m)(k \<mapsto> d')\<rparr>)" by simp
    then show ?thesis by blast
  next
    assume "\<not> readable fs m k \<and> (\<exists>err. o1 = Returns (Some err, m))"
    then obtain err where r: "\<not> readable fs m k" "o1 = Returns (Some err, m)" by blast
    from Cons.prems(1) o1 r(2) have rest: "isMsrLoadedLoop m fs scheds ks = Some out" by simp
    have sub: "set ks \<subseteq> dom (cpuCoresData m)" using Cons.prems(2) by simp
    from Cons.IH [OF rest sub] show ?thesis
    proof
      assume "out = Returns (False, m) \<and> (\<forall>k\<in>set ks. \<not> readable fs m k)"
      with r(1) show ?thesis by simp
    next
      assume "\<exists>ks1 core ks2 d'. ks = ks1 @ core # ks2 \<and> (\<forall>k\<in>set ks1. \<not> readable fs m k) \<and>
            readable fs m core \<and>
            out = Returns (True, m\<lparr>cpuCoresData := (cpuCoresData m)(core \<mapsto> d')\<rparr>)"
      then obtain ks1 core ks2 d' where h: "ks = ks1 @ core # ks2"
        "\<forall>k\<in>set ks1. \<not> readable fs m k" "readable fs m core"
        "out = Returns (True, m\<lparr>cpuCoresData := (cpuCoresData m)(core \<mapsto> d')\<rparr>)" by blast
      then have "k # ks = (k # ks1) @ core # ks2 \<and> (\<forall>k\<in>set (k # ks1). \<not> readable fs m k) \<and>
            readable fs m core \<and>
            out = Returns (True, m\<lparr>cpuCoresData := (cpuCoresData m)(core \<mapsto> d')\<rparr>)"
        using r(1) by simp
      then show ?thesis by blast
    qed
  qed
qed

lemma openAndReadMsr_returns:
  assumes "set (msrOffsets m) = set receiveOrder"
  shows "\<exists>out. openAndReadMsr m fs (sequentialSchedules fs core) core = Some out"
proof (cases "checkFile fs (msrPath core)")
  case (Some err)
  then show ?thesis by (simp add: openAndReadMsr_def)
next
  case None
  show ?thesis
  proof (cases "osOpen fs (msrPath core)")
    case (Inl err)
    with None show ?thesis by (simp add: openAndReadMsr_def)
  next
    case (Inr rd)
    from readDataFromMsr_returns [OF assms, of rd core]
    obtain out' where "readDataFromMsr m (sequentialSchedule rd) core rd = Some out'" by blast
    then show ?thesis
      by (cases out') (auto simp: openAndReadMsr_readD [OF None Inr] sequentialSchedules_def Inr
          split: option.splits)
  qed
qed

lemma isMsrLoadedLoop_returns:
  assumes "set (msrOffsets m) = set receiveOrder" "set ks \<subseteq> dom (cpuCoresData m)"
  shows "\<exists>out. isMsrLoadedLoop m fs (sequentialSchedules fs) ks = Some out"
  using assms(2)
proof (induction ks)
  case Nil
  then show ?case by simp
next
  case (Cons k ks)
  from openAndReadMsr_returns [OF assms(1), of fs k]
  obtain o1 where o1: "openAndReadMsr m fs (sequentialSchedules fs k) k = Some o1" by blast
  have key: "cpuCoresData m k \<noteq> None" using Cons.prems by auto
  from openAndReadMsr_key [OF o1 key] Cons.IH Cons.prems o1 show ?case
    by auto
qed

text \<open>
  C9. Whatever the order in which isMsrLoaded meets the cores of \<open>cpuCoresData\<close>, and
  whatever the executions of the reads, its result is a boolean and never an error or a
  panic: it is true exactly when the register source of at least one core of the store can
  be opened and read. It returns false, with the service unchanged, after all cores (none,
  for an empty store) have failed; it returns true at the first core in the order met whose
  open-and-read succeeds, and then only the \<open>msrData\<close> of that core has changed. With the
  8 offsets of the service the call does return.
\<close>

theorem isMsrLoaded_iff_readable:
  "(\<forall>scheds keys out. isMsrLoaded m fs scheds keys = Some out \<longrightarrow>
      (\<exists>m'. out = Returns ((\<exists>core\<in>dom (cpuCoresData m). readable fs m core), m')) \<and>
      (out = Returns (False, m) \<or>
       (\<exists>ks1 core ks2 d'. keys = ks1 @ core # ks2 \<and> (\<forall>k\<in>set ks1. \<not> readable fs m k) \<and>
          readable fs m core \<and>
          out = Returns (True, m\<lparr>cpuCoresData := (cpuCoresData m)(core \<mapsto> d')\<rparr>)))) \<and>
   (\<forall>keys. set (msrOffsets m) = set receiveOrder \<and> distinct keys \<and>
      set keys = dom (cpuCoresData m) \<longrightarrow>
      (\<exists>out. isMsrLoaded m fs (sequentialSchedules fs) keys = Some out))"
proof (intro conjI allI impI)
  fix scheds keys out
  assume a: "isMsrLoaded m fs scheds keys = Some out"
  then have k: "set keys = dom (cpuCoresData m)" and l: "isMsrLoadedLoop m fs scheds keys = Some out"
    by (auto simp: isMsrLoaded_def split: if_splits)
  from k have sub: "set keys \<subseteq> dom (cpuCoresData m)" by simp
  note R = isMsrLoadedLoop_result [OF l sub]
  show "\<exists>m'. out = Returns ((\<exists>core\<in>dom (cpuCoresData m). readable fs m core), m')"
    using R
  proof
    assume "out = Returns (False, m) \<and> (\<forall>k\<in>set keys. \<not> readable fs m k)"
    then show ?thesis unfolding k by auto
  next
    assume "\<exists>ks1 core ks2 d'. keys = ks1 @ core # ks2 \<and> (\<forall>k\<in>set ks1. \<not> readable fs m k) \<and>
            readable fs m core \<and>
            out = Returns (True, m\<lparr>cpuCoresData := (cpuCoresData m)(core \<mapsto> d')\<rparr>)"
    then obtain ks1 core ks2 d' where h: "keys = ks1 @ core # ks2" "readable fs m core"
      "out = Returns (True, m\<lparr>cpuCoresData := (cpuCoresData m)(core \<mapsto> d')\<rparr>)" by blast
    from h(1) have "core \<in> set keys" by simp
    then have "core \<in> dom (cpuCoresData m)" unfolding k .
    with h(2) have "\<exists>core\<in>dom (cpuCoresData m). readable fs m core" by blast
    with h(3) show ?thesis by simp
  qed
  from R show "out = Returns (False, m) \<or>
       (\<exists>ks1 core ks2 d'. keys = ks1 @ core # ks2 \<and> (\<forall>k\<in>set ks1. \<not> readable fs m k) \<and>
          readable fs m core \<and>
          out = Returns (True, m\<lparr>cpuCoresData := (cpuCoresData m)(core \<mapsto> d')\<rparr>))"
    by blast
next
  fix keys
  assume "set (msrOffsets m) = set receiveOrder \<and> distinct keys \<and>
      set keys = dom (cpuCoresData m)"
  then show "\<exists>out. isMsrLoaded m fs (sequentialSchedules fs) keys = Some out"
    using isMsrLoadedLoop_returns [of m keys fs] by (simp add: isMsrLoaded_def)
qed


lemma twoCoreService_eq:
  "twoCoreService =
     \<lparr>cpuCoresData = [''0'' \<mapsto> newMsrData, ''1'' \<mapsto> newMsrData], cpuCores = None,
      msrOffsets = receiveOrder\<rparr>"
  by (simp add: twoCoreService_def newMsrServiceWithFs_def setCPUCores_def parseCores_def
      Base_def TrimPrefix_def hasPrefix_def receiveOrder_def)

theorem isMsrLoaded_iff_readable_witness:
  "(\<exists>m'. isMsrLoaded twoCoreService halfFs (sequentialSchedules halfFs) [''0'', ''1''] =
           Some (Returns (True, m'))) \<and>
   isMsrLoaded twoCoreService deadFs (sequentialSchedules deadFs) [''0'', ''1''] =
           Some (Returns (False, twoCoreService))"
proof -
  have pre: "set (msrOffsets twoCoreService) = set receiveOrder \<and> distinct [''0'', ''1''] \<and>
      set [''0'', ''1''] = dom (cpuCoresData twoCoreService)"
    by (auto simp: twoCoreService_eq)
  have r1: "readable halfFs twoCoreService ''1''"
    by (simp add: readable_def halfFs_def msrPath_def twoCoreService_eq receiveOrder_def
        exampleReader_def)
  have k1: "''1'' \<in> dom (cpuCoresData twoCoreService)" by (simp add: twoCoreService_eq)
  note T = isMsrLoaded_iff_readable [of twoCoreService halfFs]
  from T pre obtain out where out: "isMsrLoaded twoCoreService halfFs (sequentialSchedules halfFs)
      [''0'', ''1''] = Some out" by blast
  with T obtain m' where
    "out = Returns ((\<exists>core\<in>dom (cpuCoresData twoCoreService). readable halfFs twoCoreService core), m')"
    by blast
  moreover have "\<exists>core\<in>dom (cpuCoresData twoCoreService). readable halfFs twoCoreService core"
    using r1 k1 by blast
  ultimately have 1: "\<exists>m'. isMsrLoaded twoCoreService halfFs (sequentialSchedules halfFs)
      [''0'', ''1''] = Some (Returns (True, m'))"
    using out by auto
  have nr: "\<not> readable deadFs twoCoreService k" for k
    by (simp add: readable_def deadFs_def)
  note U = isMsrLoaded_iff_readable [of twoCoreService deadFs]
  from U pre obtain out2 where out2: "isMsrLoaded twoCoreService deadFs (sequentialSchedules deadFs)
      [''0'', ''1''] = Some out2" by blast
  with U have "out2 = Returns (False, twoCoreService) \<or>
       (\<exists>ks1 core ks2 d'. [''0'', ''1''] = ks1 @ core # ks2 \<and>
          (\<forall>k\<in>set ks1. \<not> readable deadFs twoCoreService k) \<and>
          readable deadFs twoCoreService core \<and>
          out2 = Returns (True, twoCoreService\<lparr>cpuCoresData := (cpuCoresData twoCoreService)(core \<mapsto> d')\<rparr>))"
    by blast
  with nr have "out2 = Returns (False, twoCoreService)" by blast
  with out2 1 show ?thesis by simp
qed

subsection \<open>A refresh for a core that is not in the store\<close>

lemma openAndReadMsr_absent_core:
  assumes "cpuCoresData m core = None" "readable fs m core"
    and "openAndReadMsr m fs sched core = Some out"
  shows "out = Panics"
proof -
  from assms(2) have c: "checkFile fs (msrPath core) = None" by (simp add: readable_def)
  from assms(2) obtain rd where rd: "osOpen fs (msrPath core) = Inr rd"
    "\<forall>off\<in>set (msrOffsets m). \<forall>e. rd off \<noteq> Inl e"
    by (auto simp: readable_def list_all_iff split: sum.splits)
  from assms(3) obtain out' where o: "readDataFromMsr m sched core rd = Some out'"
    by (auto simp: openAndReadMsr_readD [OF c rd(1)] split: option.splits)
  from o obtain g where g: "groupInv rd (msrOffsets m) g"
    "out' = (case firstErr g of
              Some err \<Rightarrow> Returns (Some (ErrReceivedDuringReading err), m)
            | None \<Rightarrow>
               (case cpuCoresData m core of
                  None \<Rightarrow> Panics
                | Some d \<Rightarrow>
                   Returns (None,
                     m\<lparr>cpuCoresData := (cpuCoresData m)(core \<mapsto> storeValues d (received g))\<rparr>)))"
    by (rule readDataFromMsr_SomeD)
  have "firstErr g = None"
  proof (cases "firstErr g")
    case None
    then show ?thesis .
  next
    case (Some x)
    from groupInvD(4) [OF g(1) Some] rd(2) show ?thesis by force
  qed
  with g(2) assms(1) have "out' = Panics" by simp
  with assms(3) o show ?thesis by (simp add: openAndReadMsr_readD [OF c rd(1)])
qed

text \<open>
  C4. The service made for the core specification \<open>["0"]\<close> on a machine with the CPUs 0
  and 1 has no \<open>msrData\<close> for the core \<open>"1"\<close>. openAndReadMsr for the core \<open>"1"\<close>, whose
  MSR file opens and reads, does not return an error: after \<open>g.Wait()\<close> returns nil the
  assignment to \<open>m.cpuCoresData[core].c3Delta\<close> goes through the nil pointer, and the call
  panics (in every execution, \<open>openAndReadMsr_absent_core\<close>).
\<close>

theorem openAndReadMsr_unknown_core_panics:
  "cpuCoresData exampleService ''1'' = None \<and>
   readable (exampleFs exampleReader) exampleService ''1'' \<and>
   openAndReadMsr exampleService (exampleFs exampleReader) (sequentialSchedule exampleReader) ''1''
     = Some Panics"
proof -
  have 1: "cpuCoresData exampleService ''1'' = None" by (simp add: exampleService_eq)
  have 2: "readable (exampleFs exampleReader) exampleService ''1''"
    by (simp add: readable_def exampleFs_simps exampleService_eq receiveOrder_def exampleReader_def)
  have 3: "openAndReadMsr exampleService (exampleFs exampleReader)
      (sequentialSchedule exampleReader) ''1'' = Some Panics"
    by (simp add: run_defs exampleService_eq exampleReader_def)
  from 1 2 3 show ?thesis by blast
qed

end
